theory Spec2Isabelle
  imports Main "HOL-Library.Word"
begin

text \<open>
  A model of \<^verbatim>\<open>vms/subnet.go\<close> of the avalanche-network-runner: \<^verbatim>\<open>SetupSubnet\<close> and the
  functions it calls, which create a subnet on a running network, register every node as
  a validator, create a blockchain and wait until every node validates it and has
  bootstrapped it.

  The functions are translated one by one. What they call from outside the file (the
  \<^verbatim>\<open>Network\<close>, the API clients of the nodes, the file system, the clock) is a record of
  answers, and every call is written to a trace with its arguments and its answer. The
  goroutines of an \<^verbatim>\<open>errgroup\<close> are run by an explicit schedule, so that a property proved
  for every schedule holds for every interleaving.
\<close>

section \<open>Values exchanged with the collaborators\<close>

text \<open>
  Go's \<^verbatim>\<open>error\<close> values. \<open>Msg\<close> is \<^verbatim>\<open>errors.New\<close> (and any error of a
  collaborator), \<open>Wrap m e\<close> is \<^verbatim>\<open>fmt.Errorf(m + ": %w", e)\<close>, \<open>WrapNil m\<close> is the same
  call with a nil error, and the last two are \<^verbatim>\<open>context.Canceled\<close> and
  \<^verbatim>\<open>context.DeadlineExceeded\<close>. A function returning \<^verbatim>\<open>error\<close> returns
  \<open>error option\<close>, \<open>None\<close> being nil; one returning \<^verbatim>\<open>(T, error)\<close> returns \<open>error + T\<close>.
\<close>

datatype error =
    Msg string
  | Wrap string error
  | WrapNil string
  | ContextCanceled
  | ContextDeadlineExceeded

definition errorf :: "string \<Rightarrow> error option \<Rightarrow> error" where
  "errorf m e = (case e of None \<Rightarrow> WrapNil m | Some x \<Rightarrow> Wrap m x)"

text \<open>A call that dereferences nil does not return: it panics.\<close>

datatype 'a completion = Returns 'a | Panics

text \<open>\<^verbatim>\<open>ids.ID\<close>, \<^verbatim>\<open>ids.ShortID\<close> and the handle of a node's API client are opaque.\<close>

datatype ids_ID = MkID nat

datatype ShortID = MkShortID string

datatype client = Client nat

datatype Status = Unknown | Committed | Aborted | Processing | Dropped

datatype BlockchainStatus = UnknownChain | Validating | Created | Preferred | Syncing

type_synonym duration = int

record UserPass =
  Username :: string
  Password :: string

record APISubnet =
  subnetID :: ids_ID
  controlKeys :: "string list"
  threshold :: nat

text \<open>
  \<^verbatim>\<open>node.Node\<close> is used through \<^verbatim>\<open>GetNodeID\<close>, \<^verbatim>\<open>GetURL\<close>, \<^verbatim>\<open>GetAPIPort\<close> and
  \<^verbatim>\<open>GetAPIClient\<close>; the keystore, P-chain and info APIs of a node are reached through
  the one client handle.
\<close>

record Node =
  GetNodeID :: ShortID
  GetURL :: string
  GetAPIPort :: "16 word"
  GetAPIClient :: client

record CustomVM =
  Path :: string
  Genesis :: string
  Name :: string
  SubnetID :: string
  ID :: string

text \<open>
  \<^verbatim>\<open>args\<close> without its logger: what is logged goes to the trace. The map
  \<^verbatim>\<open>map[string]node.Node\<close> is the list of its entries in the order in which
  \<^verbatim>\<open>range\<close> visits them; \<open>map_of\<close> is the lookup.
\<close>

record args =
  txPChainClient :: client
  fundedAddress :: string
  userPass :: UserPass
  allNodes :: "(string \<times> Node) list"
  rSubnetID :: ids_ID

text \<open>The constants of the package that the functions below refer to.\<close>

record params =
  apiRetryFreq :: duration
  longTimeout :: duration
  defaultUserPass :: UserPass
  defaultKeyThreshold :: nat
  validatorWeight :: nat
  validatorStartDiff :: duration
  validatorEndDiff :: duration

definition NodeIDPrefix :: string where
  "NodeIDPrefix = ''NodeID-''"

fun PrefixedString :: "ShortID \<Rightarrow> string \<Rightarrow> string" where
  "PrefixedString (MkShortID s) prefix = prefix @ s"

text \<open>
  The collaborators: the network, the API clients of the nodes, the file system, the
  clock, and the parser and printer of identifiers. A status query takes the number of
  queries the polling loop has made before it, so a node may answer differently each
  time.
\<close>

record env =
  GetAllNodes :: "error + (string \<times> Node) list"
  GetNodeNames :: "error + string list"
  CreateUser :: "client \<Rightarrow> UserPass \<Rightarrow> bool \<times> error option"
  ImportKey :: "client \<Rightarrow> UserPass \<Rightarrow> string \<Rightarrow> error + string"
  FromString :: "string \<Rightarrow> error + ids_ID"
  IDString :: "ids_ID \<Rightarrow> string"
  CreateSubnet :: "client \<Rightarrow> UserPass \<Rightarrow> string list \<Rightarrow> string \<Rightarrow> string list \<Rightarrow> nat
    \<Rightarrow> error + ids_ID"
  GetTxStatus :: "client \<Rightarrow> ids_ID \<Rightarrow> bool \<Rightarrow> nat \<Rightarrow> error + Status"
  GetSubnets :: "client \<Rightarrow> ids_ID list \<Rightarrow> error + APISubnet list"
  AddSubnetValidator :: "client \<Rightarrow> UserPass \<Rightarrow> string list \<Rightarrow> string \<Rightarrow> string \<Rightarrow> string
    \<Rightarrow> nat \<Rightarrow> 64 word \<Rightarrow> 64 word \<Rightarrow> error + ids_ID"
  ReadFile :: "string \<Rightarrow> error + 8 word list"
  CreateBlockchain :: "client \<Rightarrow> UserPass \<Rightarrow> string list \<Rightarrow> string \<Rightarrow> ids_ID \<Rightarrow> string
    \<Rightarrow> string list \<Rightarrow> string \<Rightarrow> 8 word list \<Rightarrow> error + ids_ID"
  GetBlockchainStatus :: "client \<Rightarrow> string \<Rightarrow> nat \<Rightarrow> error + BlockchainStatus"
  IsBootstrapped :: "client \<Rightarrow> string \<Rightarrow> nat \<Rightarrow> bool \<times> error option"
  Now :: "nat \<Rightarrow> int"

text \<open>
  The trace: every call on a collaborator with its arguments and its answer, every
  timer armed by \<^verbatim>\<open>time.After\<close>, the return of \<^verbatim>\<open>errgroup.Wait\<close>, and every log line
  with its format and arguments.
\<close>

datatype arg = ArgStr string | ArgID ids_ID | ArgNode ShortID | ArgPort "16 word"

datatype call =
    Call_GetAllNodes "error + (string \<times> Node) list"
  | Call_GetNodeNames "error + string list"
  | Call_CreateUser client UserPass "bool \<times> error option"
  | Call_ImportKey client UserPass string "error + string"
  | Call_CreateSubnet client UserPass "string list" string "string list" nat "error + ids_ID"
  | Call_GetTxStatus client ids_ID bool "error + Status"
  | Call_GetSubnets client "ids_ID list" "error + APISubnet list"
  | Call_AddSubnetValidator client UserPass "string list" string string string nat
      "64 word" "64 word" "error + ids_ID"
  | Call_ReadFile string "error + 8 word list"
  | Call_CreateBlockchain client UserPass "string list" string ids_ID string "string list"
      string "8 word list" "error + ids_ID"
  | Call_GetBlockchainStatus client string "error + BlockchainStatus"
  | Call_IsBootstrapped client string "bool \<times> error option"
  | Call_TimeAfter duration
  | Call_Wait "error option"
  | Log_Info string "arg list"
  | Log_Debug string "arg list"

section \<open>The execution context: \<^verbatim>\<open>newArgs\<close>\<close>

definition newArgs ::
  "params \<Rightarrow> env \<Rightarrow> CustomVM \<Rightarrow> string \<Rightarrow> (error + args) completion \<times> call list" where
  "newArgs P E vm fundedPChainPrivateKey =
    (let up = defaultUserPass P;
         r1 = GetAllNodes E;
         t1 = [Call_GetAllNodes r1]
     in case r1 of
          Inl err \<Rightarrow> (Returns (Inl err), t1)
        | Inr nodes \<Rightarrow>
    (let r2 = GetNodeNames E;
         t2 = t1 @ [Call_GetNodeNames r2]
     in case r2 of
          Inl err \<Rightarrow> (Returns (Inl err), t2)
        | Inr txNodeNames \<Rightarrow>
     if length txNodeNames = 0
     then (Returns (Inl (Msg ''the array of node names is empty! Can't get any nodes'')), t2)
     else
      (case map_of nodes (txNodeNames ! 0) of
          None \<Rightarrow> (Panics, t2)
        | Some txNode \<Rightarrow>
    (let txClient = GetAPIClient txNode;
         r3 = CreateUser E txClient up;
         t3 = t2 @ [Call_CreateUser txClient up r3]
     in if \<not> fst r3 \<or> snd r3 \<noteq> None
        then (Returns (Inl (errorf ''could not create user'' (snd r3))), t3)
        else
    (let r4 = ImportKey E txClient up fundedPChainPrivateKey;
         t4 = t3 @ [Call_ImportKey txClient up fundedPChainPrivateKey r4]
     in case r4 of
          Inl err \<Rightarrow> (Returns (Inl (Wrap ''unable to import genesis key'' err)), t4)
        | Inr addr \<Rightarrow>
      (case FromString E (SubnetID vm) of
          Inl err \<Rightarrow> (Returns (Inl (Wrap ''invalid subnetID string'' err)), t4)
        | Inr sid \<Rightarrow>
            (Returns (Inr \<lparr>txPChainClient = txClient, fundedAddress = addr, userPass = up,
               allNodes = nodes, rSubnetID = sid\<rparr>), t4)))))))"

section \<open>The subnet list check: \<^verbatim>\<open>isSubnetInList\<close>\<close>

definition isSubnetInList :: "env \<Rightarrow> client \<Rightarrow> ids_ID \<Rightarrow> error option \<times> call list" where
  "isSubnetInList E c sid =
    (let r = GetSubnets E c [sid]
     in (case r of Inl err \<Rightarrow> Some (Wrap ''subnet not found'' err) | Inr _ \<Rightarrow> None,
         [Call_GetSubnets c [sid] r]))"

section \<open>The fan-out of \<^verbatim>\<open>errgroup\<close>\<close>

text \<open>
  Every fleet-wide wait spawns one goroutine per node with \<^verbatim>\<open>g.Go\<close> and joins them with
  \<^verbatim>\<open>g.Wait\<close>. Each goroutine runs the loop
  \<^verbatim>\<open>for { select { case <-ctx.Done(): return ctx.Err(); case <-time.After(d): }; body }\<close>.
  A worker is \<open>Ready k\<close> at the top of the loop after \<open>k\<close> queries, \<open>Sleeping k\<close> inside
  the \<^verbatim>\<open>select\<close>, and \<open>Returned r\<close> once its function has returned \<open>r\<close>.

  The interleaving of the goroutines, the branch each \<^verbatim>\<open>select\<close> takes and the moment at
  which the caller's context ends are not decided by the program. They are given by a
  schedule, a list of events:
  \<^item> \<open>Enter i\<close>: worker \<open>i\<close> evaluates \<^verbatim>\<open>time.After(d)\<close> and blocks in the \<^verbatim>\<open>select\<close>;
  \<^item> \<open>Fire i\<close>: the timer branch is taken and the body runs (one query and what follows);
  \<^item> \<open>Observe i\<close>: the \<^verbatim>\<open>ctx.Done()\<close> branch is taken, which needs the context to be done;
  \<^item> \<open>ParentDone e\<close>: the caller's context ends with error \<open>e\<close>.
  An event that is not possible in a state leaves it unchanged. \<open>Fire\<close> stays possible
  when the context is done, since a \<^verbatim>\<open>select\<close> with both channels ready may take either.
  A query and what the body does with its answer are one step: between the two the body
  touches nothing that another goroutine reads. The properties below hold for every
  schedule.
\<close>

datatype wstate = Ready nat | Sleeping nat | Returned "error option"

datatype event = Enter nat | Fire nat | Observe nat | ParentDone error

datatype outcome = Continue | Exit "error option"

text \<open>
  The state of a group: the workers, the error kept by \<^verbatim>\<open>errOnce\<close>, \<^verbatim>\<open>ctx.Err()\<close> of
  the context derived by \<^verbatim>\<open>errgroup.WithContext\<close>, the variables the goroutines share,
  and the trace so far.
\<close>

record 'sh group =
  workers :: "wstate list"
  err :: "error option"
  ctxErr :: "error option"
  shared :: 'sh
  trace :: "call list"

text \<open>
  A goroutine returns \<open>r\<close>. The first non-nil error is kept and cancels the derived
  context; later ones are dropped.
\<close>

definition finish :: "nat \<Rightarrow> error option \<Rightarrow> 'sh group \<Rightarrow> 'sh group" where
  "finish i r g =
    (let g' = g\<lparr>workers := (workers g)[i := Returned r]\<rparr>
     in case r of
          None \<Rightarrow> g'
        | Some e \<Rightarrow>
            if err g = None
            then g'\<lparr>err := Some e,
                    ctxErr := (if ctxErr g = None then Some ContextCanceled else ctxErr g)\<rparr>
            else g')"

text \<open>
  \<open>iv\<close> is the argument of \<^verbatim>\<open>time.After\<close> as a function of the shared variables, and
  \<open>body i k sh\<close> is what worker \<open>i\<close> does after its timer fired, having made \<open>k\<close> queries:
  the calls it makes, how the iteration ends, and the shared variables afterwards.
\<close>

fun step ::
  "('sh \<Rightarrow> duration) \<Rightarrow> (nat \<Rightarrow> nat \<Rightarrow> 'sh \<Rightarrow> call list \<times> outcome \<times> 'sh) \<Rightarrow> event \<Rightarrow> 'sh group
    \<Rightarrow> 'sh group" where
  "step iv body (Enter i) g =
    (if i < length (workers g)
     then (case workers g ! i of
             Ready k \<Rightarrow> g\<lparr>workers := (workers g)[i := Sleeping k],
                          trace := trace g @ [Call_TimeAfter (iv (shared g))]\<rparr>
           | _ \<Rightarrow> g)
     else g)"
| "step iv body (Fire i) g =
    (if i < length (workers g)
     then (case workers g ! i of
             Sleeping k \<Rightarrow>
               (case body i k (shared g) of
                  (cs, out, sh') \<Rightarrow>
                    (let g' = g\<lparr>shared := sh', trace := trace g @ cs\<rparr>
                     in case out of
                          Continue \<Rightarrow> g'\<lparr>workers := (workers g)[i := Ready (Suc k)]\<rparr>
                        | Exit r \<Rightarrow> finish i r g'))
           | _ \<Rightarrow> g)
     else g)"
| "step iv body (Observe i) g =
    (if i < length (workers g)
     then (case workers g ! i of
             Sleeping k \<Rightarrow> (case ctxErr g of None \<Rightarrow> g | Some e \<Rightarrow> finish i (Some e) g)
           | _ \<Rightarrow> g)
     else g)"
| "step iv body (ParentDone e) g = (if ctxErr g = None then g\<lparr>ctxErr := Some e\<rparr> else g)"

fun run ::
  "('sh \<Rightarrow> duration) \<Rightarrow> (nat \<Rightarrow> nat \<Rightarrow> 'sh \<Rightarrow> call list \<times> outcome \<times> 'sh) \<Rightarrow> event list \<Rightarrow> 'sh group
    \<Rightarrow> 'sh group" where
  "run iv body [] g = g"
| "run iv body (e # es) g = run iv body es (step iv body e g)"

definition spawn :: "nat \<Rightarrow> 'sh \<Rightarrow> 'sh group" where
  "spawn n sh = \<lparr>workers = replicate n (Ready 0), err = None, ctxErr = None, shared = sh,
     trace = []\<rparr>"

fun isReturned :: "wstate \<Rightarrow> bool" where
  "isReturned (Returned r) = True"
| "isReturned _ = False"

text \<open>
  \<^verbatim>\<open>g.Wait()\<close> returns once every goroutine has returned, with the error kept by
  \<^verbatim>\<open>errOnce\<close>. \<open>None\<close> is a wait that has not returned at the end of the schedule.
\<close>

definition waitResult :: "'sh group \<Rightarrow> error option option" where
  "waitResult g = (if list_all isReturned (workers g) then Some (err g) else None)"

definition final ::
  "('sh \<Rightarrow> duration) \<Rightarrow> (nat \<Rightarrow> nat \<Rightarrow> 'sh \<Rightarrow> call list \<times> outcome \<times> 'sh) \<Rightarrow> nat \<Rightarrow> 'sh \<Rightarrow> event list
    \<Rightarrow> 'sh group" where
  "final iv body n sh sched = run iv body sched (spawn n sh)"

definition groupWait ::
  "('sh \<Rightarrow> duration) \<Rightarrow> (nat \<Rightarrow> nat \<Rightarrow> 'sh \<Rightarrow> call list \<times> outcome \<times> 'sh) \<Rightarrow> nat \<Rightarrow> 'sh \<Rightarrow> event list
    \<Rightarrow> error option option \<times> call list" where
  "groupWait iv body n sh sched =
    (let g = final iv body n sh sched
     in (waitResult g,
         trace g @ (case waitResult g of None \<Rightarrow> [] | Some r \<Rightarrow> [Call_Wait r])))"

section \<open>Subnet creation: \<^verbatim>\<open>createSubnet\<close>\<close>

definition createSubnetWorker ::
  "env \<Rightarrow> args \<Rightarrow> ids_ID \<Rightarrow> nat \<Rightarrow> nat \<Rightarrow> unit \<Rightarrow> call list \<times> outcome \<times> unit" where
  "createSubnetWorker E a subnetIDTx i k u =
    (let name = fst (allNodes a ! i);
         c = GetAPIClient (snd (allNodes a ! i));
         r = GetTxStatus E c subnetIDTx True k;
         q = Call_GetTxStatus c subnetIDTx True r
     in case r of
          Inl e \<Rightarrow> ([q], Exit (Some e), u)
        | Inr status \<Rightarrow>
            if status = Committed
            then ([q, Log_Debug ''subnet creation tx (%s) on (%s) accepted''
                        [ArgID subnetIDTx, ArgStr name] ], Exit None, u)
            else ([q, Log_Debug ''waiting for subnet creation tx (%s) on (%s) to be accepted''
                        [ArgID subnetIDTx, ArgStr name] ], Continue, u))"

definition createSubnet ::
  "params \<Rightarrow> env \<Rightarrow> args \<Rightarrow> event list \<Rightarrow> error option option \<times> call list" where
  "createSubnet P E a sched =
    (let r = CreateSubnet E (txPChainClient a) (userPass a) [fundedAddress a] (fundedAddress a)
               [fundedAddress a] (defaultKeyThreshold P);
         q = Call_CreateSubnet (txPChainClient a) (userPass a) [fundedAddress a]
               (fundedAddress a) [fundedAddress a] (defaultKeyThreshold P) r
     in case r of
          Inl e \<Rightarrow> (Some (Some (Wrap ''unable to create subnet'' e)), [q])
        | Inr subnetIDTx \<Rightarrow>
            (case groupWait (\<lambda>u. apiRetryFreq P) (createSubnetWorker E a subnetIDTx)
                    (length (allNodes a)) () sched of
               (res, t) \<Rightarrow> (res, q # t)))"

section \<open>Validator registration: \<^verbatim>\<open>addAllAsValidators\<close>\<close>

definition addValidatorWorker ::
  "env \<Rightarrow> args \<Rightarrow> ids_ID \<Rightarrow> nat \<Rightarrow> nat \<Rightarrow> unit \<Rightarrow> call list \<times> outcome \<times> unit" where
  "addValidatorWorker E a txID i k u =
    (let nID = fst (allNodes a ! i);
         c = GetAPIClient (snd (allNodes a ! i));
         r = GetTxStatus E c txID True k;
         q = Call_GetTxStatus c txID True r
     in case r of
          Inl e \<Rightarrow> ([q], Exit (Some e), u)
        | Inr status \<Rightarrow>
            if status = Committed
            then ([q, Log_Debug ''add subnet validator (%s) tx (%s) accepted''
                        [ArgStr nID, ArgID txID] ], Exit None, u)
            else ([q, Log_Debug ''waiting for add subnet validator (%s) tx (%s) to be accepted''
                        [ArgStr nID, ArgID txID] ], Continue, u))"

text \<open>
  \<^verbatim>\<open>uint64(time.Now().Add(d).Unix())\<close>, the clock being read in nanoseconds since the
  epoch.
\<close>

definition unixAfter :: "int \<Rightarrow> duration \<Rightarrow> 64 word" where
  "unixAfter now d = word_of_int ((now + d) div 1000000000)"

text \<open>
  The outer loop over the nodes that are left, in its \<open>j\<close>-th iteration; \<open>scheds\<close> holds
  one schedule for each wait still to come, a missing one being the empty schedule.
\<close>

fun addAllLoop ::
  "params \<Rightarrow> env \<Rightarrow> args \<Rightarrow> string \<Rightarrow> (string \<times> Node) list \<Rightarrow> nat \<Rightarrow> event list list
    \<Rightarrow> error option option \<times> call list" where
  "addAllLoop P E a sid [] j scheds =
    (Some None, [Log_Info ''all nodes added as subnet validators for subnet %s'' [ArgStr sid] ])"
| "addAllLoop P E a sid (nd # rest) j scheds =
    (let nodeID = PrefixedString (GetNodeID (snd nd)) NodeIDPrefix;
         startTime = unixAfter (Now E (2 * j)) (validatorStartDiff P);
         endTime = unixAfter (Now E (2 * j + 1)) (validatorEndDiff P);
         r = AddSubnetValidator E (txPChainClient a) (userPass a) [fundedAddress a]
               (fundedAddress a) sid nodeID (validatorWeight P) startTime endTime;
         q = Call_AddSubnetValidator (txPChainClient a) (userPass a) [fundedAddress a]
               (fundedAddress a) sid nodeID (validatorWeight P) startTime endTime r
     in case r of
          Inl e \<Rightarrow> (Some (Some (Wrap ''unable to add subnet validator'' e)), [q])
        | Inr txID \<Rightarrow>
            (case groupWait (\<lambda>u. apiRetryFreq P) (addValidatorWorker E a txID)
                    (length (allNodes a)) () (case scheds of [] \<Rightarrow> [] | s # ss \<Rightarrow> s) of
               (None, t) \<Rightarrow> (None, q # t)
             | (Some (Some e), t) \<Rightarrow> (Some (Some e), q # t)
             | (Some None, t) \<Rightarrow>
                 (case addAllLoop P E a sid rest (Suc j) (tl scheds) of
                    (res, t') \<Rightarrow> (res, q # t @ t'))))"

definition addAllAsValidators ::
  "params \<Rightarrow> env \<Rightarrow> args \<Rightarrow> string \<Rightarrow> event list list \<Rightarrow> error option option \<times> call list" where
  "addAllAsValidators P E a sid scheds = addAllLoop P E a sid (allNodes a) 0 scheds"

section \<open>Chain creation: \<^verbatim>\<open>createBlockchain\<close>\<close>

text \<open>
  The loop of \<^verbatim>\<open>createBlockchain\<close> runs in the calling goroutine. Which branch each
  \<^verbatim>\<open>select\<close> takes is given by a list: \<open>SelTimer\<close> for the timer, \<open>SelDone e\<close> for
  \<^verbatim>\<open>ctx.Done()\<close> with \<^verbatim>\<open>ctx.Err() = e\<close>. At the end of the list the loop is still running,
  which is the result \<open>None\<close>.
\<close>

datatype sel = SelTimer | SelDone error

fun awaitBlockchainTx ::
  "params \<Rightarrow> env \<Rightarrow> args \<Rightarrow> ids_ID \<Rightarrow> nat \<Rightarrow> sel list \<Rightarrow> (error + ids_ID) option \<times> call list" where
  "awaitBlockchainTx P E a txID k [] = (None, [])"
| "awaitBlockchainTx P E a txID k (SelDone e # sels) =
    (Some (Inl e), [Call_TimeAfter (apiRetryFreq P)])"
| "awaitBlockchainTx P E a txID k (SelTimer # sels) =
    (let r = GetTxStatus E (txPChainClient a) txID True k;
         q = Call_GetTxStatus (txPChainClient a) txID True r
     in case r of
          Inl e \<Rightarrow> (Some (Inl e), [Call_TimeAfter (apiRetryFreq P), q])
        | Inr status \<Rightarrow>
            if status = Committed
            then (Some (Inr txID),
                  [Call_TimeAfter (apiRetryFreq P), q,
                   Log_Info ''create blockchain tx (%s) accepted'' [ArgID txID] ])
            else (case awaitBlockchainTx P E a txID (Suc k) sels of
                    (res, t) \<Rightarrow>
                      (res, Call_TimeAfter (apiRetryFreq P) # q #
                            Log_Debug ''waiting for create blockchain tx (%s) to be accepted''
                              [ArgID txID] # t)))"

definition createBlockchain ::
  "params \<Rightarrow> env \<Rightarrow> args \<Rightarrow> CustomVM \<Rightarrow> sel list \<Rightarrow> (error + ids_ID) option \<times> call list" where
  "createBlockchain P E a vm sels =
    (let r0 = ReadFile E (Genesis vm);
         q0 = Call_ReadFile (Genesis vm) r0
     in case r0 of
          Inl e \<Rightarrow>
            (Some (Inl (Wrap (''could not read genesis file ('' @ Genesis vm @ '')'') e)), [q0])
        | Inr genesis \<Rightarrow>
    (let r = CreateBlockchain E (txPChainClient a) (userPass a) [fundedAddress a]
               (fundedAddress a) (rSubnetID a) (ID vm) [] (Name vm) genesis;
         q = Call_CreateBlockchain (txPChainClient a) (userPass a) [fundedAddress a]
               (fundedAddress a) (rSubnetID a) (ID vm) [] (Name vm) genesis r
     in case r of
          Inl e \<Rightarrow> (Some (Inl (Wrap ''could not create blockchain'' e)), [q0, q])
        | Inr txID \<Rightarrow>
            (case awaitBlockchainTx P E a txID 0 sels of
               (res, t) \<Rightarrow> (res, q0 # q # t))))"

section \<open>Finalization: \<^verbatim>\<open>ensureValidating\<close>, \<^verbatim>\<open>ensureBootstrapped\<close>, \<^verbatim>\<open>finalizeBlockchain\<close>\<close>

text \<open>
  The variable the goroutines of \<^verbatim>\<open>ensureValidating\<close> share is \<^verbatim>\<open>statusCheckTimeout\<close>:
  every worker reads it when it arms its timer, and a worker that sees \<open>Validating\<close>
  writes it. The accesses are taken one at a time, in the order of the schedule.
\<close>

definition ensureValidatingWorker ::
  "params \<Rightarrow> env \<Rightarrow> (string \<times> Node) list \<Rightarrow> ids_ID \<Rightarrow> nat \<Rightarrow> nat \<Rightarrow> duration
    \<Rightarrow> call list \<times> outcome \<times> duration" where
  "ensureValidatingWorker P E nodes blockchainID i k statusCheckTimeout =
    (let node = snd (nodes ! i);
         nodeID = PrefixedString (GetNodeID node) NodeIDPrefix;
         c = GetAPIClient node;
         r = GetBlockchainStatus E c (IDString E blockchainID) k;
         q = Call_GetBlockchainStatus c (IDString E blockchainID) r
     in case r of
          Inl e \<Rightarrow>
            ([q], Exit (Some (Wrap ''error querying blockchain status'' e)), statusCheckTimeout)
        | Inr status \<Rightarrow>
            if status = Validating
            then ([q, Log_Info ''%s validating blockchain %s'' [ArgStr nodeID, ArgID blockchainID] ],
                  Exit None, apiRetryFreq P)
            else ([q, Log_Debug ''waiting for validating status for blockchainID %s on %s''
                        [ArgStr (IDString E blockchainID), ArgStr nodeID] ],
                  Continue, statusCheckTimeout))"

definition ensureValidating ::
  "params \<Rightarrow> env \<Rightarrow> (string \<times> Node) list \<Rightarrow> ids_ID \<Rightarrow> event list
    \<Rightarrow> error option option \<times> call list" where
  "ensureValidating P E nodes blockchainID sched =
    groupWait (\<lambda>statusCheckTimeout. statusCheckTimeout)
      (ensureValidatingWorker P E nodes blockchainID) (length nodes) (longTimeout P) sched"

definition ensureBootstrappedWorker ::
  "env \<Rightarrow> (string \<times> Node) list \<Rightarrow> ids_ID \<Rightarrow> nat \<Rightarrow> nat \<Rightarrow> unit \<Rightarrow> call list \<times> outcome \<times> unit" where
  "ensureBootstrappedWorker E nodes blockchainID i k u =
    (let node = snd (nodes ! i);
         nodeID = PrefixedString (GetNodeID node) NodeIDPrefix;
         c = GetAPIClient node;
         r = IsBootstrapped E c (IDString E blockchainID) k;
         q = Call_IsBootstrapped c (IDString E blockchainID) r
     in if fst r
        then ([q, Log_Info ''%s bootstrapped %s'' [ArgStr nodeID, ArgID blockchainID] ],
              Exit None, u)
        else ([q, Log_Debug ''waiting for %s to bootstrap %s''
                    [ArgStr nodeID, ArgStr (IDString E blockchainID)] ], Continue, u))"

definition ensureBootstrapped ::
  "params \<Rightarrow> env \<Rightarrow> (string \<times> Node) list \<Rightarrow> ids_ID \<Rightarrow> event list
    \<Rightarrow> error option option \<times> call list" where
  "ensureBootstrapped P E nodes blockchainID sched =
    groupWait (\<lambda>u. apiRetryFreq P) (ensureBootstrappedWorker E nodes blockchainID)
      (length nodes) () sched"

definition endpointLine :: "env \<Rightarrow> ids_ID \<Rightarrow> string \<times> Node \<Rightarrow> call" where
  "endpointLine E blockchainID nd =
    Log_Info ''%s: %s:%d/ext/bc/%s''
      [ArgNode (GetNodeID (snd nd)), ArgStr (GetURL (snd nd)), ArgPort (GetAPIPort (snd nd)),
       ArgStr (IDString E blockchainID)]"

definition finalizeBlockchain ::
  "params \<Rightarrow> env \<Rightarrow> (string \<times> Node) list \<Rightarrow> ids_ID \<Rightarrow> event list \<Rightarrow> event list
    \<Rightarrow> error option option \<times> call list" where
  "finalizeBlockchain P E nodes blockchainID schedV schedB =
    (case ensureValidating P E nodes blockchainID schedV of
       (None, t1) \<Rightarrow> (None, t1)
     | (Some (Some e), t1) \<Rightarrow>
         (Some (Some (Wrap ''error checking all nodes are validating the blockchain'' e)), t1)
     | (Some None, t1) \<Rightarrow>
    (case ensureBootstrapped P E nodes blockchainID schedB of
       (None, t2) \<Rightarrow> (None, t1 @ t2)
     | (Some (Some e), t2) \<Rightarrow>
         (Some (Some (Wrap ''error checking blockchain is bootstrapped'' e)), t1 @ t2)
     | (Some None, t2) \<Rightarrow>
         (Some None,
          t1 @ t2 @ Log_Info ''Custom VM endpoints now accessible at:'' [] #
            map (endpointLine E blockchainID) nodes)))"

section \<open>The workflow: \<^verbatim>\<open>SetupSubnet\<close>\<close>

text \<open>The schedules of one run of the workflow, one for each wait.\<close>

record schedules =
  subnetSched :: "event list"
  validatorScheds :: "event list list"
  chainSels :: "sel list"
  validatingSched :: "event list"
  bootstrapSched :: "event list"

definition SetupSubnet ::
  "params \<Rightarrow> env \<Rightarrow> CustomVM \<Rightarrow> string \<Rightarrow> schedules
    \<Rightarrow> error option completion option \<times> call list" where
  "SetupSubnet P E vm privateKey S =
    (let t0 = [Log_Info ''creating subnet'' [] ]
     in case newArgs P E vm privateKey of
       (Panics, t1) \<Rightarrow> (Some Panics, t0 @ t1)
     | (Returns (Inl e), t1) \<Rightarrow>
         (Some (Returns (Some (Wrap ''failed initializing subnet'' e))), t0 @ t1)
     | (Returns (Inr a), t1) \<Rightarrow>
    (case createSubnet P E a (subnetSched S) of
       (None, t2) \<Rightarrow> (None, t0 @ t1 @ t2)
     | (Some (Some e), t2) \<Rightarrow>
         (Some (Returns (Some (Wrap ''failed creating subnet'' e))), t0 @ t1 @ t2)
     | (Some None, t2) \<Rightarrow>
    (let t3 = [Log_Info ''all nodes accepted subnet tx creation'' [] ]
     in case isSubnetInList E (txPChainClient a) (rSubnetID a) of
       (Some e, t4) \<Rightarrow>
         (Some (Returns (Some (Msg ''failed to confirm subnet is in the node's subnet list''))),
          t0 @ t1 @ t2 @ t3 @ t4)
     | (None, t4) \<Rightarrow>
    (case addAllAsValidators P E a (SubnetID vm) (validatorScheds S) of
       (None, t5) \<Rightarrow> (None, t0 @ t1 @ t2 @ t3 @ t4 @ t5)
     | (Some (Some e), t5) \<Rightarrow>
         (Some (Returns (Some (Wrap ''failed to add nodes as validators'' e))),
          t0 @ t1 @ t2 @ t3 @ t4 @ t5)
     | (Some None, t5) \<Rightarrow>
    (case createBlockchain P E a vm (chainSels S) of
       (None, t6) \<Rightarrow> (None, t0 @ t1 @ t2 @ t3 @ t4 @ t5 @ t6)
     | (Some (Inl e), t6) \<Rightarrow>
         (Some (Returns (Some (Wrap ''failed creating blockchain'' e))),
          t0 @ t1 @ t2 @ t3 @ t4 @ t5 @ t6)
     | (Some (Inr blockchainID), t6) \<Rightarrow>
    (case finalizeBlockchain P E (allNodes a) blockchainID (validatingSched S)
            (bootstrapSched S) of
       (None, t7) \<Rightarrow> (None, t0 @ t1 @ t2 @ t3 @ t4 @ t5 @ t6 @ t7)
     | (Some (Some e), t7) \<Rightarrow>
         (Some (Returns (Some (Wrap ''error checking all nodes are validating subnet'' e))),
          t0 @ t1 @ t2 @ t3 @ t4 @ t5 @ t6 @ t7)
     | (Some None, t7) \<Rightarrow>
         (Some (Returns None), t0 @ t1 @ t2 @ t3 @ t4 @ t5 @ t6 @ t7)))))))"

section \<open>Schedules, group states and invariants used below\<close>

definition errInv :: "'sh group \<Rightarrow> bool" where
  "errInv g = ((\<forall>e. Returned (Some e) \<in> set (workers g) \<longrightarrow> err g \<noteq> None)
     \<and> (err g \<noteq> None \<longrightarrow> ctxErr g \<noteq> None)
     \<and> (\<forall>e. err g = Some e \<longrightarrow> Returned (Some e) \<in> set (workers g)))"

definition okInv :: "(nat \<Rightarrow> nat \<Rightarrow> 'sh \<Rightarrow> call list \<times> outcome \<times> 'sh) \<Rightarrow> 'sh group \<Rightarrow> bool" where
  "okInv body g = (\<forall>i < length (workers g). workers g ! i = Returned None \<longrightarrow>
     (\<exists>k s cs s'. body i k s = (cs, Exit None, s') \<and> set cs \<subseteq> set (trace g)))"

definition fromBody :: "(nat \<Rightarrow> nat \<Rightarrow> 'sh \<Rightarrow> call list \<times> outcome \<times> 'sh) \<Rightarrow> nat \<Rightarrow> error \<Rightarrow> bool" where
  "fromBody body n e = (\<exists>i k s cs s'. i < n \<and> body i k s = (cs, Exit (Some e), s'))"

definition drain :: "nat \<Rightarrow> event list" where
  "drain n = concat (map (\<lambda>j. [Enter j, Observe j]) [0..<n])"

definition contInv :: "(nat \<Rightarrow> nat \<Rightarrow> 'sh \<Rightarrow> call list \<times> outcome \<times> 'sh) \<Rightarrow> 'sh group \<Rightarrow> bool" where
  "contInv body g = (\<forall>i < length (workers g). \<forall>k. workers g ! i = Ready k \<or> workers g ! i = Sleeping k \<longrightarrow>
     (\<forall>j < k. \<exists>s. fst (snd (body i j s)) = Continue))"

definition turns :: "nat \<Rightarrow> nat \<Rightarrow> event list" where
  "turns m i = concat (replicate m [Enter i, Fire i])"

definition createSubnetGroup :: "params \<Rightarrow> env \<Rightarrow> args \<Rightarrow> ids_ID \<Rightarrow> event list \<Rightarrow> unit group" where
  "createSubnetGroup P E a tx sched =
     final (\<lambda>u. apiRetryFreq P) (createSubnetWorker E a tx) (length (allNodes a)) () sched"

definition clientOf :: "(string \<times> Node) list \<Rightarrow> nat \<Rightarrow> client" where
  "clientOf nodes i = GetAPIClient (snd (nodes ! i))"

definition allTurns :: "nat \<Rightarrow> nat \<Rightarrow> event list" where
  "allTurns m n = concat (map (turns m) [0..<n])"

definition ensureValidatingGroup ::
  "params \<Rightarrow> env \<Rightarrow> (string \<times> Node) list \<Rightarrow> ids_ID \<Rightarrow> event list \<Rightarrow> duration group" where
  "ensureValidatingGroup P E nodes blockchainID sched =
     final (\<lambda>statusCheckTimeout. statusCheckTimeout)
       (ensureValidatingWorker P E nodes blockchainID) (length nodes) (longTimeout P) sched"

definition ensureBootstrappedGroup ::
  "params \<Rightarrow> env \<Rightarrow> (string \<times> Node) list \<Rightarrow> ids_ID \<Rightarrow> event list \<Rightarrow> unit group" where
  "ensureBootstrappedGroup P E nodes blockchainID sched =
     final (\<lambda>u. apiRetryFreq P) (ensureBootstrappedWorker E nodes blockchainID) (length nodes) ()
       sched"


text \<open>The API client on which a call is made, for the calls that are made on one.\<close>

fun callClient :: "call \<Rightarrow> client option" where
  "callClient (Call_CreateUser c up r) = Some c"
| "callClient (Call_ImportKey c up k r) = Some c"
| "callClient (Call_CreateSubnet c up ks a cs th r) = Some c"
| "callClient (Call_GetTxStatus c t b r) = Some c"
| "callClient (Call_GetSubnets c is r) = Some c"
| "callClient (Call_AddSubnetValidator c up ks a sid nid w s e r) = Some c"
| "callClient (Call_CreateBlockchain c up ks a sid vid fx nm g r) = Some c"
| "callClient (Call_GetBlockchainStatus c s r) = Some c"
| "callClient (Call_IsBootstrapped c s r) = Some c"
| "callClient _ = None"

fun isCreateBlockchain :: "call \<Rightarrow> bool" where
  "isCreateBlockchain (Call_CreateBlockchain c up ks a sid vid fx nm g r) = True"
| "isCreateBlockchain _ = False"

fun isGetTxStatus :: "call \<Rightarrow> bool" where
  "isGetTxStatus (Call_GetTxStatus c t b r) = True"
| "isGetTxStatus _ = False"

definition createChainTx :: "env \<Rightarrow> args \<Rightarrow> CustomVM \<Rightarrow> 8 word list \<Rightarrow> error + ids_ID" where
  "createChainTx E a vm genesis =
     CreateBlockchain E (txPChainClient a) (userPass a) [fundedAddress a] (fundedAddress a)
       (rSubnetID a) (ID vm) [] (Name vm) genesis"

definition createChainCall :: "env \<Rightarrow> args \<Rightarrow> CustomVM \<Rightarrow> 8 word list \<Rightarrow> call" where
  "createChainCall E a vm genesis =
     Call_CreateBlockchain (txPChainClient a) (userPass a) [fundedAddress a] (fundedAddress a)
       (rSubnetID a) (ID vm) [] (Name vm) genesis (createChainTx E a vm genesis)"

text \<open>
  What the trace tells about the registrations: whether an entry is a submission, the node
  it registers, and the transaction the submission returned.
\<close>

fun isSubmit :: "call \<Rightarrow> bool" where
  "isSubmit (Call_AddSubnetValidator c up ks a sid nid w s e r) = True"
| "isSubmit _ = False"

fun submittedNode :: "call \<Rightarrow> string list" where
  "submittedNode (Call_AddSubnetValidator c up ks a sid nid w s e r) = [nid]"
| "submittedNode _ = []"

fun submitTx :: "call \<Rightarrow> ids_ID option" where
  "submitTx (Call_AddSubnetValidator c up ks a sid nid w s e (Inr tx)) = Some tx"
| "submitTx _ = None"

definition submittedNodes :: "call list \<Rightarrow> string list" where
  "submittedNodes t = concat (map submittedNode t)"

definition nodeIDs :: "(string \<times> Node) list \<Rightarrow> string list" where
  "nodeIDs nodes = map (\<lambda>nd. PrefixedString (GetNodeID (snd nd)) NodeIDPrefix) nodes"

definition addValidatorGroup :: "params \<Rightarrow> env \<Rightarrow> args \<Rightarrow> ids_ID \<Rightarrow> event list \<Rightarrow> unit group" where
  "addValidatorGroup P E a tx sched =
     final (\<lambda>u. apiRetryFreq P) (addValidatorWorker E a tx) (length (allNodes a)) () sched"

text \<open>
  The submission of the \<open>j\<close>-th iteration of \<^verbatim>\<open>addAllLoop\<close>, its entry in the trace, and
  the wait that follows it.
\<close>

definition submitResult :: "params \<Rightarrow> env \<Rightarrow> args \<Rightarrow> string \<Rightarrow> string \<times> Node \<Rightarrow> nat \<Rightarrow> error + ids_ID" where
  "submitResult P E a sid nd j =
     AddSubnetValidator E (txPChainClient a) (userPass a) [fundedAddress a] (fundedAddress a) sid
       (PrefixedString (GetNodeID (snd nd)) NodeIDPrefix) (validatorWeight P)
       (unixAfter (Now E (2 * j)) (validatorStartDiff P))
       (unixAfter (Now E (2 * j + 1)) (validatorEndDiff P))"

definition submitCall :: "params \<Rightarrow> env \<Rightarrow> args \<Rightarrow> string \<Rightarrow> string \<times> Node \<Rightarrow> nat \<Rightarrow> call" where
  "submitCall P E a sid nd j =
     Call_AddSubnetValidator (txPChainClient a) (userPass a) [fundedAddress a] (fundedAddress a) sid
       (PrefixedString (GetNodeID (snd nd)) NodeIDPrefix) (validatorWeight P)
       (unixAfter (Now E (2 * j)) (validatorStartDiff P))
       (unixAfter (Now E (2 * j + 1)) (validatorEndDiff P))
       (submitResult P E a sid nd j)"

definition validatorWait ::
  "params \<Rightarrow> env \<Rightarrow> args \<Rightarrow> ids_ID \<Rightarrow> event list \<Rightarrow> error option option \<times> call list" where
  "validatorWait P E a tx s =
     groupWait (\<lambda>u. apiRetryFreq P) (addValidatorWorker E a tx) (length (allNodes a)) () s"

text \<open>
  What has to lie between a submission \<open>q\<close> and the next one: \<open>post\<close> is the trace after
  \<open>q\<close>, and its part up to the next submission holds, for the transaction of \<open>q\<close>,
  a \<open>Committed\<close> answer from every node of the fleet and the successful return of the wait.
\<close>

definition confirmedBeforeNext :: "args \<Rightarrow> call \<Rightarrow> call list \<Rightarrow> bool" where
  "confirmedBeforeNext a q post =
     (\<exists>tx. submitTx q = Some tx
        \<and> (\<forall>i < length (allNodes a).
              Call_GetTxStatus (clientOf (allNodes a) i) tx True (Inr Committed)
                \<in> set (takeWhile (\<lambda>c. \<not> isSubmit c) post))
        \<and> Call_Wait None \<in> set (takeWhile (\<lambda>c. \<not> isSubmit c) post))"

text \<open>
  The chain identifier an entry of the trace is about: the argument of a status query or
  of a bootstrap query, and the last argument of an endpoint line.
\<close>

fun chainIdOf :: "call \<Rightarrow> string option" where
  "chainIdOf (Call_GetBlockchainStatus c s r) = Some s"
| "chainIdOf (Call_IsBootstrapped c s r) = Some s"
| "chainIdOf (Log_Info f as) =
     (if f = ''%s: %s:%d/ext/bc/%s''
      then (case as of [ArgNode n, ArgStr u, ArgPort p, ArgStr s] \<Rightarrow> Some s | _ \<Rightarrow> None)
      else None)"
| "chainIdOf _ = None"

section \<open>An example fleet\<close>

text \<open>
  Two nodes whose collaborators answer every call successfully; the examples below change
  one answer at a time.
\<close>

definition exampleParams :: params where
  "exampleParams =
    \<lparr>apiRetryFreq = 1000000000, longTimeout = 10000000000,
     defaultUserPass = \<lparr>Username = ''user'', Password = ''pass''\<rparr>,
     defaultKeyThreshold = 1, validatorWeight = 3000,
     validatorStartDiff = 60000000000, validatorEndDiff = 2592000000000000\<rparr>"

definition node1 :: Node where
  "node1 = \<lparr>GetNodeID = MkShortID ''A'', GetURL = ''127.0.0.1'', GetAPIPort = 9650,
     GetAPIClient = Client 1\<rparr>"

definition node2 :: Node where
  "node2 = \<lparr>GetNodeID = MkShortID ''B'', GetURL = ''127.0.0.1'', GetAPIPort = 9652,
     GetAPIClient = Client 2\<rparr>"

definition exampleNodes :: "(string \<times> Node) list" where
  "exampleNodes = [(''node1'', node1), (''node2'', node2)]"

definition exampleVM :: CustomVM where
  "exampleVM = \<lparr>Path = ''vm.bin'', Genesis = ''genesis.json'', Name = ''vm'',
     SubnetID = ''subnet7'', ID = ''vmid''\<rparr>"

definition exampleEnv :: env where
  "exampleEnv =
    \<lparr>GetAllNodes = Inr exampleNodes,
     GetNodeNames = Inr [''node1'', ''node2''],
     CreateUser = (\<lambda>c up. (True, None)),
     ImportKey = (\<lambda>c up k. Inr ''P-funded''),
     FromString = (\<lambda>s. if s = ''subnet7'' then Inr (MkID 7) else Inl (Msg ''bad id'')),
     IDString = (\<lambda>i. if i = MkID 3 then ''chain3'' else if i = MkID 7 then ''subnet7'' else ''other''),
     CreateSubnet = (\<lambda>c up ks a cs th. Inr (MkID 7)),
     GetTxStatus = (\<lambda>c t b k. Inr Committed),
     GetSubnets = (\<lambda>c is. Inr (map (\<lambda>i. \<lparr>subnetID = i, controlKeys = [], threshold = 1\<rparr>) is)),
     AddSubnetValidator = (\<lambda>c up ks a sid nid w s e. Inr (MkID (10 + length nid))),
     ReadFile = (\<lambda>p. Inr []),
     CreateBlockchain = (\<lambda>c up ks a sid vid fx nm g. Inr (MkID 3)),
     GetBlockchainStatus = (\<lambda>c s k. Inr Validating),
     IsBootstrapped = (\<lambda>c s k. (True, None)),
     Now = (\<lambda>n. 0)\<rparr>"

definition exampleArgs :: args where
  "exampleArgs = \<lparr>txPChainClient = Client 1, fundedAddress = ''P-funded'',
     userPass = defaultUserPass exampleParams, allNodes = exampleNodes, rSubnetID = MkID 7\<rparr>"

definition unreachableEnv :: env where
  "unreachableEnv = exampleEnv\<lparr>GetTxStatus :=
     (\<lambda>c t b k. if c = Client 2 then Inl (Msg ''unreachable'') else Inr Committed)\<rparr>"

definition pendingEnv :: env where
  "pendingEnv = exampleEnv\<lparr>GetTxStatus :=
     (\<lambda>c t b k. if c = Client 2 then Inr Processing else Inr Committed)\<rparr>"

definition flakyEnv :: env where
  "flakyEnv = exampleEnv\<lparr>IsBootstrapped :=
     (\<lambda>c s k. if c = Client 2 \<and> k < 2 then (False, Some (Msg ''connection refused''))
               else (True, None))\<rparr>"

definition stuckEnv :: env where
  "stuckEnv = exampleEnv\<lparr>IsBootstrapped :=
     (\<lambda>c s k. if c = Client 2 then (False, Some (Msg ''connection refused'')) else (True, None))\<rparr>"

definition brokenStatusEnv :: env where
  "brokenStatusEnv = exampleEnv\<lparr>GetBlockchainStatus :=
     (\<lambda>c s k. if c = Client 2 then Inl (Msg ''connection refused'') else Inr Validating)\<rparr>"

definition noGenesisEnv :: env where
  "noGenesisEnv = exampleEnv\<lparr>ReadFile := (\<lambda>p. Inl (Msg ''no such file''))\<rparr>"

definition exampleSchedules :: schedules where
  "exampleSchedules =
    \<lparr>subnetSched = [Enter 0, Fire 0, Enter 1, Fire 1],
     validatorScheds = [ [Enter 0, Fire 0, Enter 1, Fire 1], [Enter 1, Fire 1, Enter 0, Fire 0] ],
     chainSels = [SelTimer],
     validatingSched = [Enter 0, Enter 1, Fire 1, Fire 0],
     bootstrapSched = [Enter 0, Fire 0, Enter 1, Fire 1]\<rparr>"

section \<open>Properties of \<^verbatim>\<open>newArgs\<close>\<close>

lemma newArgs_panics_iff:
  "(fst (newArgs P E vm key) = Panics) =
     (\<exists>nodes n ns. GetAllNodes E = Inr nodes \<and> GetNodeNames E = Inr (n # ns) \<and> map_of nodes n = None)"
  by (auto simp: newArgs_def Let_def neq_Nil_conv split: sum.splits option.splits if_splits)

lemma newArgs_panics_trace:
  "fst (newArgs P E vm key) = Panics \<Longrightarrow>
     snd (newArgs P E vm key) = [Call_GetAllNodes (GetAllNodes E), Call_GetNodeNames (GetNodeNames E)]"
  by (auto simp: newArgs_def Let_def split: sum.splits option.splits if_splits)

lemma map_of_keys_Some: "n \<in> fst ` set nodes \<Longrightarrow> map_of nodes n \<noteq> None"
  by (simp add: map_of_eq_None_iff)

lemma newArgs_no_args: "FromString E (SubnetID vm) = Inl e \<Longrightarrow> fst (newArgs P E vm key) \<noteq> Returns (Inr a)"
  by (auto simp: newArgs_def Let_def split: sum.splits option.splits if_splits)

text \<open>
  Claim C2, as amended. A malformed subnet identifier is always rejected: \<^verbatim>\<open>newArgs\<close>
  never returns a context for it. The identifier is parsed last, so when the two reads of
  the fleet, the creation of the keystore user and the import of the key succeed, the
  error returned is the parse error, and the trace then holds the user creation and the
  key import on the issuing node.
\<close>

theorem newArgs_malformed_id:
  "FromString E (SubnetID vm) = Inl e \<longrightarrow>
     (\<forall>a. fst (newArgs P E vm key) \<noteq> Returns (Inr a))
     \<and> (GetAllNodes E = Inr nodes \<and> GetNodeNames E = Inr (n # ns) \<and> map_of nodes n = Some nd
          \<and> CreateUser E (GetAPIClient nd) (defaultUserPass P) = (True, None)
          \<and> ImportKey E (GetAPIClient nd) (defaultUserPass P) key = Inr addr \<longrightarrow>
        newArgs P E vm key =
          (Returns (Inl (Wrap ''invalid subnetID string'' e)),
           [Call_GetAllNodes (Inr nodes), Call_GetNodeNames (Inr (n # ns)),
            Call_CreateUser (GetAPIClient nd) (defaultUserPass P) (True, None),
            Call_ImportKey (GetAPIClient nd) (defaultUserPass P) key (Inr addr)]))"
proof (intro impI conjI allI)
  fix a assume "FromString E (SubnetID vm) = Inl e"
  then show "fst (newArgs P E vm key) \<noteq> Returns (Inr a)" by (rule newArgs_no_args)
next
  assume "FromString E (SubnetID vm) = Inl e"
    and "GetAllNodes E = Inr nodes \<and> GetNodeNames E = Inr (n # ns) \<and> map_of nodes n = Some nd
          \<and> CreateUser E (GetAPIClient nd) (defaultUserPass P) = (True, None)
          \<and> ImportKey E (GetAPIClient nd) (defaultUserPass P) key = Inr addr"
  then show "newArgs P E vm key =
          (Returns (Inl (Wrap ''invalid subnetID string'' e)),
           [Call_GetAllNodes (Inr nodes), Call_GetNodeNames (Inr (n # ns)),
            Call_CreateUser (GetAPIClient nd) (defaultUserPass P) (True, None),
            Call_ImportKey (GetAPIClient nd) (defaultUserPass P) key (Inr addr)])"
    by (simp add: newArgs_def Let_def)
qed

theorem newArgs_malformed_id_witness:
  "FromString exampleEnv (SubnetID (exampleVM\<lparr>SubnetID := ''not-an-id''\<rparr>)) = Inl (Msg ''bad id'')
   \<and> fst (newArgs exampleParams exampleEnv (exampleVM\<lparr>SubnetID := ''not-an-id''\<rparr>) ''key'')
       = Returns (Inl (Wrap ''invalid subnetID string'' (Msg ''bad id'')))
   \<and> length (snd (newArgs exampleParams exampleEnv (exampleVM\<lparr>SubnetID := ''not-an-id''\<rparr>) ''key'')) = 4"
proof -
  let ?vm = "exampleVM\<lparr>SubnetID := ''not-an-id''\<rparr>"
  have h: "FromString exampleEnv (SubnetID ?vm) = Inl (Msg ''bad id'')"
    by (simp add: exampleEnv_def)
  have g: "GetAllNodes exampleEnv = Inr exampleNodes \<and> GetNodeNames exampleEnv = Inr (''node1'' # [''node2''])
      \<and> map_of exampleNodes ''node1'' = Some node1
      \<and> CreateUser exampleEnv (GetAPIClient node1) (defaultUserPass exampleParams) = (True, None)
      \<and> ImportKey exampleEnv (GetAPIClient node1) (defaultUserPass exampleParams) ''key'' = Inr ''P-funded''"
    by (simp add: exampleEnv_def exampleNodes_def)
  show ?thesis
    using h g newArgs_malformed_id [of exampleEnv ?vm "Msg ''bad id''" exampleParams "''key''"
        exampleNodes "''node1''" "[''node2'']" node1 "''P-funded''"]
    by simp
qed

text \<open>
  The claim as stated, that the identifier is rejected before any network call, fails on
  the example fleet: the user is created and the key imported before the parse error.
\<close>

theorem newArgs_malformed_id_counterexample:
  "FromString exampleEnv (SubnetID (exampleVM\<lparr>SubnetID := ''not-an-id''\<rparr>)) = Inl (Msg ''bad id'')
   \<and> newArgs exampleParams exampleEnv (exampleVM\<lparr>SubnetID := ''not-an-id''\<rparr>) ''key''
   = (Returns (Inl (Wrap ''invalid subnetID string'' (Msg ''bad id''))),
      [Call_GetAllNodes (Inr exampleNodes), Call_GetNodeNames (Inr [''node1'', ''node2'']),
       Call_CreateUser (Client 1) (defaultUserPass exampleParams) (True, None),
       Call_ImportKey (Client 1) (defaultUserPass exampleParams) ''key'' (Inr ''P-funded'')])"
  by (simp add: newArgs_def exampleEnv_def Let_def exampleNodes_def node1_def)

text \<open>
  Claim C3, as amended. \<^verbatim>\<open>newArgs\<close> checks that the list of node names is not empty and
  returns an error before any call on an API client if it is. The map of all nodes is not
  checked: with an empty map and a name list that cannot be read or is empty the error of
  the name list is returned, and with an empty map and a non-empty name list the lookup
  of the first name finds no node and the call on it panics; no API client has been
  called in any of these cases.
\<close>

theorem newArgs_fleet_checks:
  "(GetAllNodes E = Inr nodes \<and> GetNodeNames E = Inr [] \<longrightarrow>
      newArgs P E vm key =
        (Returns (Inl (Msg ''the array of node names is empty! Can't get any nodes'')),
         [Call_GetAllNodes (Inr nodes), Call_GetNodeNames (Inr [])]))
   \<and> (GetAllNodes E = Inr [] \<and> GetNodeNames E = Inl e \<longrightarrow>
      newArgs P E vm key = (Returns (Inl e), [Call_GetAllNodes (Inr []), Call_GetNodeNames (Inl e)]))
   \<and> (GetAllNodes E = Inr [] \<and> GetNodeNames E = Inr (n # ns) \<longrightarrow>
      newArgs P E vm key = (Panics, [Call_GetAllNodes (Inr []), Call_GetNodeNames (Inr (n # ns))]))"
  by (simp add: newArgs_def Let_def)

theorem newArgs_fleet_checks_witness:
  "newArgs exampleParams (exampleEnv\<lparr>GetNodeNames := Inr []\<rparr>) exampleVM ''key'' =
        (Returns (Inl (Msg ''the array of node names is empty! Can't get any nodes'')),
         [Call_GetAllNodes (Inr exampleNodes), Call_GetNodeNames (Inr [])])
   \<and> newArgs exampleParams (exampleEnv\<lparr>GetAllNodes := Inr [], GetNodeNames := Inl (Msg ''network stopped'')\<rparr>)
        exampleVM ''key'' =
        (Returns (Inl (Msg ''network stopped'')),
         [Call_GetAllNodes (Inr []), Call_GetNodeNames (Inl (Msg ''network stopped''))])
   \<and> newArgs exampleParams (exampleEnv\<lparr>GetAllNodes := Inr []\<rparr>) exampleVM ''key'' =
        (Panics, [Call_GetAllNodes (Inr []), Call_GetNodeNames (Inr [''node1'', ''node2''])])"
proof -
  let ?E1 = "exampleEnv\<lparr>GetNodeNames := Inr []\<rparr>"
  let ?E2 = "exampleEnv\<lparr>GetAllNodes := Inr [], GetNodeNames := Inl (Msg ''network stopped'')\<rparr>"
  let ?E3 = "exampleEnv\<lparr>GetAllNodes := Inr []\<rparr>"
  have h1: "GetAllNodes ?E1 = Inr exampleNodes \<and> GetNodeNames ?E1 = Inr []"
    by (simp add: exampleEnv_def)
  have h2: "GetAllNodes ?E2 = Inr [] \<and> GetNodeNames ?E2 = Inl (Msg ''network stopped'')"
    by simp
  have h3: "GetAllNodes ?E3 = Inr [] \<and> GetNodeNames ?E3 = Inr (''node1'' # [''node2''])"
    by (simp add: exampleEnv_def)
  show ?thesis
    using h1 h2 h3
      newArgs_fleet_checks [of ?E1 exampleNodes exampleParams exampleVM "''key''"]
      newArgs_fleet_checks [of ?E2 _ exampleParams exampleVM "''key''" "Msg ''network stopped''"]
      newArgs_fleet_checks [of ?E3 _ exampleParams exampleVM "''key''" _ "''node1''" "[''node2'']"]
    by blast
qed

text \<open>
  The claim as stated, that an empty map of nodes makes \<^verbatim>\<open>newArgs\<close> return an error,
  fails for the example fleet with its node map emptied: \<^verbatim>\<open>newArgs\<close> panics.
\<close>

theorem newArgs_empty_fleet_counterexample:
  "GetAllNodes (exampleEnv\<lparr>GetAllNodes := Inr []\<rparr>) = Inr []
   \<and> newArgs exampleParams (exampleEnv\<lparr>GetAllNodes := Inr []\<rparr>) exampleVM ''key''
       = (Panics, [Call_GetAllNodes (Inr []), Call_GetNodeNames (Inr [''node1'', ''node2''])])"
  by (simp add: newArgs_def exampleEnv_def Let_def)

text \<open>
  Claim C9. \<^verbatim>\<open>newArgs\<close> indexes the map of all nodes with the first node name without
  checking that the name is a key. It panics exactly when both reads succeed, the name
  list is not empty and its first name is not a key of the map; it has then made the two
  reads and no call on an API client. When every name returned is a key of the map it
  does not panic.
\<close>

theorem newArgs_issuing_node_lookup:
  "((fst (newArgs P E vm key) = Panics) =
      (\<exists>nodes n ns. GetAllNodes E = Inr nodes \<and> GetNodeNames E = Inr (n # ns) \<and> map_of nodes n = None))
   \<and> (fst (newArgs P E vm key) = Panics \<longrightarrow>
        snd (newArgs P E vm key) = [Call_GetAllNodes (GetAllNodes E), Call_GetNodeNames (GetNodeNames E)])
   \<and> (\<forall>nodes names. GetAllNodes E = Inr nodes \<and> GetNodeNames E = Inr names \<and> set names \<subseteq> fst ` set nodes
        \<longrightarrow> fst (newArgs P E vm key) \<noteq> Panics)"
proof (intro conjI allI impI)
  show "(fst (newArgs P E vm key) = Panics) =
      (\<exists>nodes n ns. GetAllNodes E = Inr nodes \<and> GetNodeNames E = Inr (n # ns) \<and> map_of nodes n = None)"
    by (rule newArgs_panics_iff)
next
  assume "fst (newArgs P E vm key) = Panics"
  then show "snd (newArgs P E vm key) = [Call_GetAllNodes (GetAllNodes E), Call_GetNodeNames (GetNodeNames E)]"
    by (rule newArgs_panics_trace)
next
  fix nodes names
  assume h: "GetAllNodes E = Inr nodes \<and> GetNodeNames E = Inr names \<and> set names \<subseteq> fst ` set nodes"
  show "fst (newArgs P E vm key) \<noteq> Panics"
  proof
    assume "fst (newArgs P E vm key) = Panics"
    then obtain nodes' n ns where p: "GetAllNodes E = Inr nodes'" "GetNodeNames E = Inr (n # ns)"
        "map_of nodes' n = None"
      unfolding newArgs_panics_iff by blast
    with h have "n \<in> fst ` set nodes" "nodes' = nodes" by auto
    with p(3) show False using map_of_keys_Some by metis
  qed
qed

theorem newArgs_issuing_node_lookup_witness:
  "fst (newArgs exampleParams (exampleEnv\<lparr>GetNodeNames := Inr [''node3'']\<rparr>) exampleVM ''key'') = Panics
   \<and> snd (newArgs exampleParams (exampleEnv\<lparr>GetNodeNames := Inr [''node3'']\<rparr>) exampleVM ''key'')
       = [Call_GetAllNodes (Inr exampleNodes), Call_GetNodeNames (Inr [''node3''])]
   \<and> set [''node1'', ''node2''] \<subseteq> fst ` set exampleNodes
   \<and> fst (newArgs exampleParams exampleEnv exampleVM ''key'') \<noteq> Panics"
proof -
  let ?E = "exampleEnv\<lparr>GetNodeNames := Inr [''node3'']\<rparr>"
  have a: "GetAllNodes ?E = Inr exampleNodes \<and> GetNodeNames ?E = Inr (''node3'' # []) \<and>
      map_of exampleNodes ''node3'' = None"
    by (simp add: exampleEnv_def exampleNodes_def)
  have b: "GetAllNodes exampleEnv = Inr exampleNodes \<and> GetNodeNames exampleEnv = Inr [''node1'', ''node2'']
      \<and> set [''node1'', ''node2''] \<subseteq> fst ` set exampleNodes"
    by (simp add: exampleEnv_def exampleNodes_def)
  from a have p: "fst (newArgs exampleParams ?E exampleVM ''key'') = Panics"
    using newArgs_issuing_node_lookup [of exampleParams ?E exampleVM "''key''"] by blast
  then have t: "snd (newArgs exampleParams ?E exampleVM ''key'') =
      [Call_GetAllNodes (GetAllNodes ?E), Call_GetNodeNames (GetNodeNames ?E)]"
    using newArgs_issuing_node_lookup [of exampleParams ?E exampleVM "''key''"] by blast
  from b have q: "fst (newArgs exampleParams exampleEnv exampleVM ''key'') \<noteq> Panics"
    using newArgs_issuing_node_lookup [of exampleParams exampleEnv exampleVM "''key''"] by blast
  from p t q a b show ?thesis by simp
qed

section \<open>Properties of the fan-out\<close>

lemma run_append: "run iv body (es @ fs) g = run iv body fs (run iv body es g)"
  by (induction es arbitrary: g) auto

lemma run_snoc: "run iv body (es @ [e]) g = step iv body e (run iv body es g)"
  by (simp add: run_append)

lemma finish_length [simp]: "length (workers (finish i r g)) = length (workers g)"
  by (simp add: finish_def Let_def split: option.splits)

lemma step_length [simp]: "length (workers (step iv body e g)) = length (workers g)"
  by (cases e) (auto simp: Let_def split: wstate.splits option.splits outcome.splits prod.splits)

lemma run_length [simp]: "length (workers (run iv body es g)) = length (workers g)"
  by (induction es arbitrary: g) auto

lemma final_length [simp]: "length (workers (final iv body n sh sched)) = n"
  by (simp add: final_def spawn_def)

text \<open>A worker that has returned stays as it is, and so does the error that was kept.\<close>

lemma finish_workers: "workers (finish i r g) = (workers g)[i := Returned r]"
  by (simp add: finish_def Let_def split: option.splits)

lemma step_returned:
  "workers g ! j = Returned r \<Longrightarrow> workers (step iv body e g) ! j = Returned r"
  by (cases e)
     (auto simp: finish_workers Let_def nth_list_update
           split: wstate.splits option.splits outcome.splits prod.splits)

lemma run_returned:
  "workers g ! j = Returned r \<Longrightarrow> workers (run iv body es g) ! j = Returned r"
  by (induction es arbitrary: g) (auto simp: step_returned)

lemma finish_err: "err g = Some e \<Longrightarrow> err (finish i r g) = Some e"
  by (simp add: finish_def Let_def split: option.splits)

lemma step_err: "err g = Some e \<Longrightarrow> err (step iv body ev g) = Some e"
  by (cases ev)
     (auto simp: finish_err Let_def split: wstate.splits option.splits outcome.splits prod.splits)

lemma run_err: "err g = Some e \<Longrightarrow> err (run iv body es g) = Some e"
  by (induction es arbitrary: g) (auto simp: step_err)

lemma finish_ctxErr: "ctxErr g \<noteq> None \<Longrightarrow> ctxErr (finish i r g) = ctxErr g"
  by (auto simp add: finish_def Let_def split: option.splits)

lemma step_ctxErr: "ctxErr g \<noteq> None \<Longrightarrow> ctxErr (step iv body ev g) = ctxErr g"
  by (cases ev)
     (auto simp: finish_ctxErr Let_def split: wstate.splits option.splits outcome.splits prod.splits)

lemma run_ctxErr: "ctxErr g \<noteq> None \<Longrightarrow> ctxErr (run iv body es g) = ctxErr g"
  by (induction es arbitrary: g) (auto simp: step_ctxErr)

lemma errInv_spawn: "errInv (spawn n sh)"
  by (simp add: errInv_def spawn_def)

lemma mem_update_other: "w \<in> set ws \<Longrightarrow> w \<noteq> ws ! i \<Longrightarrow> w \<in> set (ws[i := v])"
  by (metis in_set_conv_nth length_list_update nth_list_update_neq)

lemma mem_update_cases: "w \<in> set (ws[i := v]) \<Longrightarrow> w = v \<or> w \<in> set ws"
  using set_update_subset_insert by fastforce

lemma isReturned_neq: "\<not> isReturned w \<Longrightarrow> Returned x \<noteq> w"
  by (cases w) auto

lemma errInv_update:
  assumes "errInv g" "\<not> isReturned (workers g ! i)" "\<not> isReturned w"
  shows "errInv (g\<lparr>workers := (workers g)[i := w]\<rparr>)"
proof -
  have a: "\<And>e. Returned (Some e) \<in> set ((workers g)[i := w]) \<Longrightarrow> Returned (Some e) \<in> set (workers g)"
    using assms(3) mem_update_cases by fastforce
  have b: "\<And>e. Returned (Some e) \<in> set (workers g) \<Longrightarrow> Returned (Some e) \<in> set ((workers g)[i := w])"
    using assms(2) by (intro mem_update_other) (auto simp: isReturned_neq)
  show ?thesis using assms(1) a b unfolding errInv_def by auto
qed

lemma errInv_finish:
  assumes "errInv g" "i < length (workers g)" "\<not> isReturned (workers g ! i)"
  shows "errInv (finish i r g)"
proof -
  have b: "\<And>e. Returned (Some e) \<in> set (workers g) \<Longrightarrow> Returned (Some e) \<in> set ((workers g)[i := Returned r])"
    using assms(3) by (intro mem_update_other) (auto simp: isReturned_neq)
  have c: "Returned r \<in> set ((workers g)[i := Returned r])"
    using assms(2) by (rule set_update_memI)
  show ?thesis
  proof (cases r)
    case None
    have a: "\<And>e. Returned (Some e) \<in> set ((workers g)[i := Returned None]) \<Longrightarrow> Returned (Some e) \<in> set (workers g)"
      using mem_update_cases by fastforce
    show ?thesis using assms(1) a b None unfolding errInv_def finish_def Let_def by auto
  next
    case (Some e)
    show ?thesis
    proof (cases "err g")
      case None
      then show ?thesis using assms(1) c Some unfolding errInv_def finish_def Let_def by auto
    next
      case (Some e')
      then show ?thesis using assms(1) b \<open>r = Some e\<close> unfolding errInv_def finish_def Let_def by auto
    qed
  qed
qed

lemma errInv_frame [simp]:
  "errInv (g\<lparr>shared := s, trace := t\<rparr>) = errInv g"
  "errInv (g\<lparr>workers := ws, trace := t\<rparr>) = errInv (g\<lparr>workers := ws\<rparr>)"
  "errInv (g\<lparr>shared := s, trace := t, workers := ws\<rparr>) = errInv (g\<lparr>workers := ws\<rparr>)"
  by (simp_all add: errInv_def)

lemma errInv_step: "errInv g \<Longrightarrow> errInv (step iv body e g)"
proof (cases e)
  case (Enter i)
  assume a: "errInv g"
  show ?thesis
  proof (cases "workers g ! i")
    case (Ready k)
    have "errInv (g\<lparr>workers := (workers g)[i := Sleeping k]\<rparr>)"
      using a Ready by (intro errInv_update) auto
    then show ?thesis using a Enter Ready by simp
  qed (use a Enter in auto)
next
  case (Fire i)
  assume a: "errInv g"
  show ?thesis
  proof (cases "i < length (workers g)")
    case True
    show ?thesis
    proof (cases "workers g ! i")
      case (Sleeping k)
      obtain cs out sh' where b: "body i k (shared g) = (cs, out, sh')"
        by (cases "body i k (shared g)") auto
      let ?g' = "g\<lparr>shared := sh', trace := trace g @ cs\<rparr>"
      have inv': "errInv ?g'" using a by simp
      show ?thesis
      proof (cases out)
        case Continue
        have "errInv (g\<lparr>workers := (workers g)[i := Ready (Suc k)]\<rparr>)"
          using a Sleeping by (intro errInv_update) auto
        then show ?thesis using Fire True Sleeping b Continue by simp
      next
        case (Exit r)
        have "errInv (finish i r ?g')"
          using inv' True Sleeping by (intro errInv_finish) auto
        then show ?thesis using Fire True Sleeping b Exit by simp
      qed
    qed (use a Fire True in auto)
  qed (use a Fire in auto)
next
  case (Observe i)
  assume a: "errInv g"
  show ?thesis
  proof (cases "i < length (workers g)")
    case True
    show ?thesis
    proof (cases "workers g ! i")
      case (Sleeping k)
      show ?thesis
      proof (cases "ctxErr g")
        case None
        then show ?thesis using a Observe True Sleeping by simp
      next
        case (Some c)
        have "errInv (finish i (Some c) g)"
          using a True Sleeping by (intro errInv_finish) auto
        then show ?thesis using Observe True Sleeping Some by simp
      qed
    qed (use a Observe True in auto)
  qed (use a Observe in auto)
next
  case (ParentDone c)
  assume a: "errInv g"
  then show ?thesis using ParentDone by (auto simp: errInv_def)
qed

lemma errInv_run: "errInv g \<Longrightarrow> errInv (run iv body es g)"
  by (induction es arbitrary: g) (auto simp: errInv_step)

lemma errInv_final: "errInv (final iv body n sh sched)"
  by (simp add: final_def errInv_run errInv_spawn)

lemma list_all_isReturned:
  "list_all isReturned ws = (\<forall>i < length ws. \<exists>r. ws ! i = Returned r)"
proof -
  have "\<And>w. isReturned w = (\<exists>r. w = Returned r)"
    by (case_tac w) auto
  then show ?thesis by (simp add: list_all_length)
qed

lemma waitResult_success:
  assumes "errInv g"
  shows "(waitResult g = Some None) = (\<forall>i < length (workers g). workers g ! i = Returned None)"
proof
  assume "waitResult g = Some None"
  then have r: "list_all isReturned (workers g)" and e: "err g = None"
    by (auto simp: waitResult_def split: if_splits)
  show "\<forall>i < length (workers g). workers g ! i = Returned None"
  proof (intro allI impI)
    fix i assume i: "i < length (workers g)"
    with r obtain x where x: "workers g ! i = Returned x"
      by (auto simp: list_all_isReturned)
    then have "Returned x \<in> set (workers g)" using i by (metis nth_mem)
    with assms e have "x = None" unfolding errInv_def by (cases x) auto
    with x show "workers g ! i = Returned None" by simp
  qed
next
  assume h: "\<forall>i < length (workers g). workers g ! i = Returned None"
  then have r: "list_all isReturned (workers g)" by (simp add: list_all_isReturned)
  have "err g = None"
  proof (cases "err g")
    case (Some e)
    with assms have "Returned (Some e) \<in> set (workers g)"
      unfolding errInv_def by blast
    then obtain i where "i < length (workers g)" "workers g ! i = Returned (Some e)"
      by (auto simp: in_set_conv_nth)
    with h show ?thesis by simp
  qed simp
  with r show "waitResult g = Some None" by (simp add: waitResult_def)
qed

lemma final_snoc: "final iv body n sh (es @ [e]) = step iv body e (final iv body n sh es)"
  by (simp add: final_def run_snoc)

lemma final_append: "final iv body n sh (es @ fs) = run iv body fs (final iv body n sh es)"
  by (simp add: final_def run_append)

lemma final_Nil: "final iv body n sh [] = spawn n sh"
  by (simp add: final_def)

lemma finish_trace [simp]: "trace (finish i r g) = trace g"
  by (simp add: finish_def Let_def split: option.splits)

lemma finish_shared [simp]: "shared (finish i r g) = shared g"
  by (simp add: finish_def Let_def split: option.splits)

lemma step_trace_mono: "set (trace g) \<subseteq> set (trace (step iv body e g))"
  by (cases e) (auto simp: Let_def split: wstate.splits option.splits outcome.splits prod.splits)

text \<open>A worker that returned nil did so through a body that exited with nil.\<close>

lemma okInv_step:
  assumes "okInv body g"
  shows "okInv body (step iv body e g)"
  unfolding okInv_def
proof (intro allI impI)
  fix j
  assume j: "j < length (workers (step iv body e g))"
    and r: "workers (step iv body e g) ! j = Returned None"
  have jl: "j < length (workers g)" using j by simp
  show "\<exists>k s cs s'. body j k s = (cs, Exit None, s') \<and> set cs \<subseteq> set (trace (step iv body e g))"
  proof (cases "workers g ! j = Returned None")
    case True
    with assms jl obtain k s cs s' where "body j k s = (cs, Exit None, s')" "set cs \<subseteq> set (trace g)"
      unfolding okInv_def by blast
    then show ?thesis using step_trace_mono [of g iv body e] by blast
  next
    case False
    show ?thesis
    proof (cases e)
      case (Enter i)
      with r False jl show ?thesis
        by (auto simp: nth_list_update split: wstate.splits if_splits)
    next
      case (Fire i)
      show ?thesis
      proof (cases "workers g ! i")
        case (Sleeping k)
        obtain cs out sh' where b: "body i k (shared g) = (cs, out, sh')"
          by (cases "body i k (shared g)") auto
        from r False jl Fire Sleeping b have "i = j \<and> out = Exit None"
          by (auto simp: nth_list_update finish_workers Let_def split: if_splits outcome.splits)
        then show ?thesis using Fire Sleeping b jl
          by (auto simp: Let_def)
      qed (use r False Fire in \<open>auto split: if_splits\<close>)
    next
      case (Observe i)
      with r False jl show ?thesis
        by (auto simp: nth_list_update finish_workers split: wstate.splits if_splits option.splits)
    next
      case (ParentDone c)
      with r False show ?thesis by (auto split: if_splits)
    qed
  qed
qed

lemma okInv_final: "okInv body (final iv body n sh sched)"
proof (induction sched rule: rev_induct)
  case Nil
  then show ?case by (simp add: final_Nil okInv_def spawn_def)
next
  case (snoc e es)
  then show ?case by (simp add: final_snoc okInv_step)
qed

text \<open>Where the error kept by the group comes from.\<close>

lemma provenance:
  "(\<forall>e. err (final iv body n sh sched) = Some e \<longrightarrow> fromBody body n e \<or> ParentDone e \<in> set sched)
   \<and> (\<forall>c. err (final iv body n sh sched) = None \<and> ctxErr (final iv body n sh sched) = Some c
         \<longrightarrow> ParentDone c \<in> set sched)"
proof (induction sched rule: rev_induct)
  case Nil
  then show ?case by (simp add: final_Nil spawn_def)
next
  case (snoc ev es)
  let ?g = "final iv body n sh es"
  have len: "length (workers ?g) = n" by simp
  from snoc have ih1: "\<And>e. err ?g = Some e \<Longrightarrow> fromBody body n e \<or> ParentDone e \<in> set es"
    and ih2: "\<And>c. err ?g = None \<Longrightarrow> ctxErr ?g = Some c \<Longrightarrow> ParentDone c \<in> set es"
    by blast+
  show ?case
  proof (cases ev)
    case (Enter i)
    then show ?thesis using ih1 ih2
      by (auto simp: final_snoc split: wstate.splits)
  next
    case (ParentDone c)
    then show ?thesis using ih1 ih2
      by (auto simp: final_snoc)
  next
    case (Observe i)
    show ?thesis
    proof (cases "i < n \<and> (\<exists>k. workers ?g ! i = Sleeping k) \<and> ctxErr ?g \<noteq> None")
      case True
      then obtain k c where s: "workers ?g ! i = Sleeping k" "ctxErr ?g = Some c" "i < n" by auto
      then have eq: "final iv body n sh (es @ [ev]) = finish i (Some c) ?g"
        using Observe by (simp add: final_snoc)
      show ?thesis
      proof (cases "err ?g")
        case None
        then have "err (finish i (Some c) ?g) = Some c" by (simp add: finish_def Let_def)
        moreover have "ParentDone c \<in> set es" using ih2 None s by blast
        ultimately show ?thesis using eq by auto
      next
        case (Some e')
        then have "err (finish i (Some c) ?g) = Some e'" by (simp add: finish_err)
        then show ?thesis using eq ih1 Some by auto
      qed
    next
      case False
      then have "final iv body n sh (es @ [ev]) = ?g"
        using Observe by (auto simp: final_snoc split: wstate.splits option.splits)
      then show ?thesis using ih1 ih2 by auto
    qed
  next
    case (Fire i)
    show ?thesis
    proof (cases "i < n \<and> (\<exists>k. workers ?g ! i = Sleeping k)")
      case True
      then obtain k where s: "workers ?g ! i = Sleeping k" "i < n" by auto
      obtain cs out sh' where b: "body i k (shared ?g) = (cs, out, sh')"
        by (cases "body i k (shared ?g)") auto
      let ?g' = "?g\<lparr>shared := sh', trace := trace ?g @ cs\<rparr>"
      show ?thesis
      proof (cases out)
        case Continue
        then have "err (final iv body n sh (es @ [ev])) = err ?g"
          "ctxErr (final iv body n sh (es @ [ev])) = ctxErr ?g"
          using Fire s b by (simp_all add: final_snoc)
        then show ?thesis using ih1 ih2 by auto
      next
        case (Exit r)
        then have eq: "final iv body n sh (es @ [ev]) = finish i r ?g'"
          using Fire s b by (simp add: final_snoc)
        show ?thesis
        proof (cases r)
          case None
          then have "err (finish i r ?g') = err ?g" "ctxErr (finish i r ?g') = ctxErr ?g"
            by (simp_all add: finish_def Let_def)
          then show ?thesis using eq ih1 ih2 by auto
        next
          case (Some e)
          have fb: "fromBody body n e" unfolding fromBody_def using b Exit Some s by blast
          show ?thesis
          proof (cases "err ?g")
            case None
            then have "err (finish i r ?g') = Some e" using Some by (simp add: finish_def Let_def)
            then show ?thesis using eq fb by auto
          next
            case (Some e')
            then have "err (finish i r ?g') = Some e'" by (simp add: finish_err)
            then show ?thesis using eq ih1 Some by auto
          qed
        qed
      qed
    next
      case False
      then have "final iv body n sh (es @ [ev]) = ?g"
        using Fire by (auto simp: final_snoc split: wstate.splits)
      then show ?thesis using ih1 ih2 by auto
    qed
  qed
qed

lemma isReturned_step: "isReturned (workers g ! j) \<Longrightarrow> isReturned (workers (step iv body e g) ! j)"
  by (cases "workers g ! j") (auto simp: step_returned)

lemma isReturned_run: "isReturned (workers g ! j) \<Longrightarrow> isReturned (workers (run iv body es g) ! j)"
  by (cases "workers g ! j") (auto simp: run_returned)

lemma enter_observe:
  assumes "ctxErr g \<noteq> None" "j < length (workers g)"
  shows "isReturned (workers (step iv body (Observe j) (step iv body (Enter j) g)) ! j)"
proof (cases "workers g ! j")
  case (Ready k)
  then show ?thesis using assms by (auto simp: finish_workers)
next
  case (Sleeping k)
  then show ?thesis using assms by (auto simp: finish_workers)
next
  case (Returned r)
  then show ?thesis using assms by auto
qed

lemma drain_list:
  "ctxErr g \<noteq> None \<Longrightarrow> j < length (workers g) \<Longrightarrow> j \<in> set js \<or> isReturned (workers g ! j) \<Longrightarrow>
     isReturned (workers (run iv body (concat (map (\<lambda>j. [Enter j, Observe j]) js)) g) ! j)"
proof (induction js arbitrary: g)
  case Nil
  then show ?case by simp
next
  case (Cons a js)
  let ?g' = "step iv body (Observe a) (step iv body (Enter a) g)"
  have c: "ctxErr ?g' \<noteq> None" using Cons.prems(1) by (simp add: step_ctxErr del: step.simps)
  have l: "j < length (workers ?g')" using Cons.prems(2) by (simp del: step.simps)
  have "j \<in> set js \<or> isReturned (workers ?g' ! j)"
  proof (cases "j = a")
    case True
    then show ?thesis using enter_observe [OF Cons.prems(1)] Cons.prems(2) by blast
  next
    case False
    then show ?thesis using Cons.prems(3) by (auto simp: isReturned_step simp del: step.simps)
  qed
  from Cons.IH [OF c l this] show ?case by (simp del: step.simps)
qed

lemma drain_returns:
  assumes "ctxErr g \<noteq> None"
  shows "waitResult (run iv body (drain (length (workers g))) g) \<noteq> None"
proof -
  have "\<And>j. j < length (workers g) \<Longrightarrow>
      isReturned (workers (run iv body (drain (length (workers g))) g) ! j)"
    unfolding drain_def using assms by (intro drain_list) auto
  then have "list_all isReturned (workers (run iv body (drain (length (workers g))) g))"
    by (simp add: list_all_length)
  then show ?thesis by (simp add: waitResult_def)
qed

declare step.simps [simp del]

text \<open>The entries of a group's trace: timers and what the bodies called.\<close>

lemma step_trace_cases:
  "c \<in> set (trace (step iv body e g)) \<Longrightarrow>
     c \<in> set (trace g) \<or> c = Call_TimeAfter (iv (shared g))
     \<or> (\<exists>i k. i < length (workers g) \<and> c \<in> set (fst (body i k (shared g))))"
proof (cases e)
  case (Fire i)
  assume c: "c \<in> set (trace (step iv body e g))"
  show ?thesis
  proof (cases "i < length (workers g) \<and> (\<exists>k. workers g ! i = Sleeping k)")
    case False
    then have "step iv body e g = g" using Fire by (auto simp: step.simps split: wstate.splits)
    with c show ?thesis by simp
  next
    case True
    then obtain k where s: "workers g ! i = Sleeping k" "i < length (workers g)" by auto
    obtain cs out sh' where b: "body i k (shared g) = (cs, out, sh')"
      by (cases "body i k (shared g)") auto
    have "trace (step iv body e g) = trace g @ cs"
      using Fire s b by (cases out) (auto simp: step.simps)
    with c have "c \<in> set (trace g) \<or> c \<in> set (fst (body i k (shared g)))"
      using b by auto
    with s show ?thesis by blast
  qed
qed (auto simp: step.simps Let_def split: wstate.splits option.splits if_splits)

lemma final_trace_cases:
  "c \<in> set (trace (final iv body n sh sched)) \<Longrightarrow>
     (\<exists>s. c = Call_TimeAfter (iv s)) \<or> (\<exists>i k s. i < n \<and> c \<in> set (fst (body i k s)))"
proof (induction sched arbitrary: c rule: rev_induct)
  case Nil
  then show ?case by (simp add: final_Nil spawn_def)
next
  case (snoc e es)
  from snoc.prems have "c \<in> set (trace (step iv body e (final iv body n sh es)))"
    by (simp add: final_snoc)
  from step_trace_cases [OF this] show ?case using snoc.IH by auto
qed

text \<open>A worker that has made \<open>k\<close> queries and is still running continued after each.\<close>

lemma contInv_step:
  assumes "contInv body g"
  shows "contInv body (step iv body e g)"
  unfolding contInv_def
proof (intro allI impI)
  fix x k j
  assume x: "x < length (workers (step iv body e g))"
    and w: "workers (step iv body e g) ! x = Ready k \<or> workers (step iv body e g) ! x = Sleeping k"
    and j: "j < k"
  have xl: "x < length (workers g)" using x by simp
  have old: "\<And>k'. workers g ! x = Ready k' \<or> workers g ! x = Sleeping k' \<Longrightarrow> j < k' \<Longrightarrow>
      \<exists>s. fst (snd (body x j s)) = Continue"
    using assms xl unfolding contInv_def by blast
  show "\<exists>s. fst (snd (body x j s)) = Continue"
  proof (cases e)
    case (Enter i)
    with w xl old j show ?thesis
      by (auto simp: step.simps nth_list_update split: wstate.splits if_splits)
  next
    case (ParentDone c)
    with w old j show ?thesis by (auto simp: step.simps split: if_splits)
  next
    case (Observe i)
    with w xl old j show ?thesis
      by (auto simp: step.simps nth_list_update finish_workers split: wstate.splits if_splits option.splits)
  next
    case (Fire i)
    show ?thesis
    proof (cases "i < length (workers g) \<and> (\<exists>k'. workers g ! i = Sleeping k')")
      case False
      then have "step iv body e g = g" using Fire by (auto simp: step.simps split: wstate.splits)
      with w old j show ?thesis by auto
    next
      case True
      then obtain k' where s: "workers g ! i = Sleeping k'" "i < length (workers g)" by auto
      obtain cs out sh' where b: "body i k' (shared g) = (cs, out, sh')"
        by (cases "body i k' (shared g)") auto
      show ?thesis
      proof (cases out)
        case (Exit r)
        then have "workers (step iv body e g) = (workers g)[i := Returned r]"
          using Fire s b by (simp add: step.simps finish_workers)
        with w xl old j s show ?thesis by (auto simp: nth_list_update split: if_splits)
      next
        case Continue
        then have ws: "workers (step iv body e g) = (workers g)[i := Ready (Suc k')]"
          using Fire s b by (simp add: step.simps)
        show ?thesis
        proof (cases "x = i")
          case False
          with ws w xl old j s show ?thesis by (auto simp: nth_list_update)
        next
          case True
          with ws w xl s have k: "k = Suc k'" by (auto simp: nth_list_update)
          show ?thesis
          proof (cases "j = k'")
            case True
            have "fst (snd (body i k' (shared g))) = Continue" using b Continue by simp
            with True \<open>x = i\<close> show ?thesis by blast
          next
            case False
            with j k have "j < k'" by simp
            with old [of k'] s \<open>x = i\<close> show ?thesis by blast
          qed
        qed
      qed
    qed
  qed
qed

lemma contInv_run: "contInv body g \<Longrightarrow> contInv body (run iv body es g)"
  by (induction es arbitrary: g) (auto simp: contInv_step)

lemma contInv_spawn: "contInv body (spawn n sh)"
  by (simp add: contInv_def spawn_def)

lemma contInv_final: "contInv body (final iv body n sh sched)"
  unfolding final_def by (intro contInv_run contInv_spawn)

text \<open>Progress of one worker that is given its turns.\<close>

lemma turn_step:
  assumes "i < length (workers g)" "workers g ! i = Ready k \<or> workers g ! i = Sleeping k"
  shows "workers (run iv body [Enter i, Fire i] g) ! i =
     (case fst (snd (body i k (shared g))) of Continue \<Rightarrow> Ready (Suc k) | Exit r \<Rightarrow> Returned r)"
proof -
  let ?g1 = "step iv body (Enter i) g"
  have a: "workers ?g1 ! i = Sleeping k" "shared ?g1 = shared g" "length (workers ?g1) = length (workers g)"
    using assms by (auto simp: step.simps)
  obtain cs out sh' where b: "body i k (shared g) = (cs, out, sh')"
    by (cases "body i k (shared g)") auto
  show ?thesis using a b assms(1)
    by (cases out) (auto simp: step.simps finish_workers)
qed

lemma turns_progress:
  "i < length (workers g) \<Longrightarrow> workers g ! i = Ready k \<or> workers g ! i = Sleeping k \<Longrightarrow>
   \<forall>s. fst (snd (body i t s)) \<noteq> Continue \<Longrightarrow> k \<le> t \<Longrightarrow> t < k + m \<Longrightarrow>
   isReturned (workers (run iv body (turns m i) g) ! i)"
proof (induction m arbitrary: g k)
  case 0
  then show ?case by simp
next
  case (Suc m)
  let ?g' = "run iv body [Enter i, Fire i] g"
  have r: "run iv body (turns (Suc m) i) g = run iv body (turns m i) ?g'"
    by (simp add: turns_def)
  have l: "i < length (workers ?g')" using Suc.prems(1) by simp
  note ts = turn_step [OF Suc.prems(1) Suc.prems(2), of iv body]
  show ?case
  proof (cases "fst (snd (body i k (shared g)))")
    case (Exit x)
    with ts have "isReturned (workers ?g' ! i)" by simp
    then show ?thesis unfolding r by (rule isReturned_run)
  next
    case Continue
    with ts have w: "workers ?g' ! i = Ready (Suc k) \<or> workers ?g' ! i = Sleeping (Suc k)" by simp
    from Continue Suc.prems(3) have "k \<noteq> t" by metis
    with Suc.prems have "Suc k \<le> t" "t < Suc k + m" by auto
    from Suc.IH [OF l w Suc.prems(3) this] show ?thesis unfolding r .
  qed
qed

lemma createSubnetWorker_ok:
  "createSubnetWorker E a tx i k s = (cs, Exit None, s') \<Longrightarrow>
     GetTxStatus E (clientOf (allNodes a) i) tx True k = Inr Committed
     \<and> Call_GetTxStatus (clientOf (allNodes a) i) tx True (Inr Committed) \<in> set cs"
  by (auto simp: createSubnetWorker_def clientOf_def Let_def split: sum.splits if_splits)

lemma createSubnetWorker_err:
  "createSubnetWorker E a tx i k s = (cs, Exit (Some e), s') \<Longrightarrow>
     GetTxStatus E (clientOf (allNodes a) i) tx True k = Inl e"
  by (auto simp: createSubnetWorker_def clientOf_def Let_def split: sum.splits if_splits)

lemma createSubnetWorker_committed:
  "GetTxStatus E (clientOf (allNodes a) i) tx True k = Inr Committed \<Longrightarrow>
     fst (snd (createSubnetWorker E a tx i k s)) = Exit None"
  by (auto simp: createSubnetWorker_def clientOf_def Let_def split: sum.splits if_splits)

lemma createSubnetWorker_fails:
  "GetTxStatus E (clientOf (allNodes a) i) tx True k = Inl e \<Longrightarrow>
     fst (snd (createSubnetWorker E a tx i k s)) = Exit (Some e)"
  by (auto simp: createSubnetWorker_def clientOf_def Let_def split: sum.splits if_splits)

lemma createSubnet_unfold:
  assumes "CreateSubnet E (txPChainClient a) (userPass a) [fundedAddress a] (fundedAddress a)
             [fundedAddress a] (defaultKeyThreshold P) = Inr tx"
  shows "fst (createSubnet P E a sched) = waitResult (createSubnetGroup P E a tx sched)"
    and "set (trace (createSubnetGroup P E a tx sched)) \<subseteq> set (snd (createSubnet P E a sched))"
  using assms by (auto simp: createSubnet_def groupWait_def createSubnetGroup_def Let_def)

lemma ParentDone_ctxErr:
  "ParentDone c \<in> set sched \<Longrightarrow> ctxErr (run iv body sched g) \<noteq> None"
proof (induction sched arbitrary: g)
  case Nil
  then show ?case by simp
next
  case (Cons e es)
  show ?case
  proof (cases "e = ParentDone c")
    case True
    then have "ctxErr (step iv body e g) \<noteq> None" by (simp add: step.simps)
    then show ?thesis by (simp add: run_ctxErr)
  next
    case False
    with Cons show ?thesis by simp
  qed
qed

lemma fire_exit:
  assumes "i < length (workers g)" "workers g ! i = Sleeping k"
    "fst (snd (body i k (shared g))) = Exit r"
  shows "workers (step iv body (Fire i) g) ! i = Returned r"
proof -
  obtain cs out sh' where b: "body i k (shared g) = (cs, out, sh')"
    by (cases "body i k (shared g)") auto
  with assms show ?thesis by (auto simp: step.simps finish_workers)
qed

lemma returned_error_cancels:
  assumes "errInv g" "i < length (workers g)" "workers g ! i = Returned (Some e)"
  shows "ctxErr g \<noteq> None"
proof -
  have "Returned (Some e) \<in> set (workers g)" using assms(2,3) by (metis nth_mem)
  with assms(1) show ?thesis unfolding errInv_def by blast
qed

text \<open>
  Claim C6. In \<^verbatim>\<open>createSubnet\<close>, once the transaction has been submitted, and for every
  schedule:
  \<^item> the wait returns nil exactly when every worker has returned nil;
  \<^item> a worker that returned nil saw \<open>Committed\<close> from its node, and the query is in the
    trace;
  \<^item> a worker whose query answers \<open>Committed\<close> returns nil in that very step;
  \<^item> if some node never answers \<open>Committed\<close>, the wait does not return nil;
  \<^item> an error returned by the wait is a query error of some node or the error of the
    caller's context;
  \<^item> the error kept first is kept for the rest of the run;
  \<^item> if the queries of some node always fail then, whatever has happened so far, the wait
    returns an error once that worker has run one iteration and every worker has reached
    its next \<^verbatim>\<open>select\<close>;
  \<^item> once the caller's context is done, the wait returns as soon as every worker has
    reached its next \<^verbatim>\<open>select\<close>;
  \<^item> while no query fails and the caller's context is not done, a node that never answers
    \<open>Committed\<close> keeps the wait from returning: the loop has no bound of its own.
\<close>

theorem createSubnet_fleet_wait:
  assumes sub: "CreateSubnet E (txPChainClient a) (userPass a) [fundedAddress a] (fundedAddress a)
             [fundedAddress a] (defaultKeyThreshold P) = Inr tx"
  shows
   "((fst (createSubnet P E a sched) = Some None) =
       (\<forall>i < length (allNodes a). workers (createSubnetGroup P E a tx sched) ! i = Returned None))
    \<and> (\<forall>i < length (allNodes a). workers (createSubnetGroup P E a tx sched) ! i = Returned None \<longrightarrow>
          Call_GetTxStatus (clientOf (allNodes a) i) tx True (Inr Committed)
            \<in> set (snd (createSubnet P E a sched)))
    \<and> (\<forall>i k. i < length (allNodes a) \<and> workers (createSubnetGroup P E a tx sched) ! i = Sleeping k
          \<and> GetTxStatus E (clientOf (allNodes a) i) tx True k = Inr Committed \<longrightarrow>
          workers (createSubnetGroup P E a tx (sched @ [Fire i])) ! i = Returned None)
    \<and> (\<forall>i < length (allNodes a).
          (\<forall>k. GetTxStatus E (clientOf (allNodes a) i) tx True k \<noteq> Inr Committed) \<longrightarrow>
          fst (createSubnet P E a sched) \<noteq> Some None)
    \<and> (\<forall>e. fst (createSubnet P E a sched) = Some (Some e) \<longrightarrow>
          (\<exists>i < length (allNodes a). \<exists>k. GetTxStatus E (clientOf (allNodes a) i) tx True k = Inl e)
          \<or> ParentDone e \<in> set sched)
    \<and> (\<forall>e more. err (createSubnetGroup P E a tx sched) = Some e \<longrightarrow>
          err (createSubnetGroup P E a tx (sched @ more)) = Some e)
    \<and> (\<forall>i < length (allNodes a).
          (\<forall>k. \<exists>e. GetTxStatus E (clientOf (allNodes a) i) tx True k = Inl e) \<longrightarrow>
          (\<exists>e. fst (createSubnet P E a (sched @ [Enter i, Fire i] @ drain (length (allNodes a))))
                 = Some (Some e)))
    \<and> (\<forall>c. ParentDone c \<in> set sched \<longrightarrow>
          fst (createSubnet P E a (sched @ drain (length (allNodes a)))) \<noteq> None)
    \<and> ((\<forall>c. ParentDone c \<notin> set sched)
          \<and> (\<forall>j < length (allNodes a). \<forall>k e. GetTxStatus E (clientOf (allNodes a) j) tx True k \<noteq> Inl e)
          \<and> (\<exists>i < length (allNodes a).
                \<forall>k. GetTxStatus E (clientOf (allNodes a) i) tx True k \<noteq> Inr Committed) \<longrightarrow>
          fst (createSubnet P E a sched) = None)"
proof -
  let ?n = "length (allNodes a)"
  let ?body = "createSubnetWorker E a tx"
  let ?iv = "\<lambda>u::unit. apiRetryFreq P"
  let ?G = "createSubnetGroup P E a tx"
  note res = createSubnet_unfold(1) [OF sub]
  note tr = createSubnet_unfold(2) [OF sub]
  have inv: "\<And>s. errInv (?G s)" by (simp add: createSubnetGroup_def errInv_final)
  have len: "\<And>s. length (workers (?G s)) = ?n" by (simp add: createSubnetGroup_def)
  have app: "\<And>s t. ?G (s @ t) = run ?iv ?body t (?G s)"
    by (simp add: createSubnetGroup_def final_append)
  have observed: "\<And>s i. i < ?n \<Longrightarrow> workers (?G s) ! i = Returned None \<Longrightarrow>
      \<exists>k. GetTxStatus E (clientOf (allNodes a) i) tx True k = Inr Committed
        \<and> Call_GetTxStatus (clientOf (allNodes a) i) tx True (Inr Committed) \<in> set (trace (?G s))"
  proof -
    fix s i assume "i < ?n" "workers (?G s) ! i = Returned None"
    with okInv_final [of ?body ?iv ?n "()" s]
    obtain k u cs u' where "?body i k u = (cs, Exit None, u')" "set cs \<subseteq> set (trace (?G s))"
      unfolding okInv_def createSubnetGroup_def by (metis final_length)
    with createSubnetWorker_ok [of E a tx i k u cs u'] show
      "\<exists>k. GetTxStatus E (clientOf (allNodes a) i) tx True k = Inr Committed
        \<and> Call_GetTxStatus (clientOf (allNodes a) i) tx True (Inr Committed) \<in> set (trace (?G s))"
      by blast
  qed
  have p1: "(fst (createSubnet P E a sched) = Some None) =
       (\<forall>i < ?n. workers (?G sched) ! i = Returned None)"
    using waitResult_success [OF inv, of sched] by (simp add: res len)
  have p2: "\<forall>i < ?n. workers (?G sched) ! i = Returned None \<longrightarrow>
          Call_GetTxStatus (clientOf (allNodes a) i) tx True (Inr Committed)
            \<in> set (snd (createSubnet P E a sched))"
    using observed [of _ sched] tr [of sched] by blast
  have p3: "\<forall>i k. i < ?n \<and> workers (?G sched) ! i = Sleeping k
          \<and> GetTxStatus E (clientOf (allNodes a) i) tx True k = Inr Committed \<longrightarrow>
          workers (?G (sched @ [Fire i])) ! i = Returned None"
  proof (intro allI impI)
    fix i k
    assume h: "i < ?n \<and> workers (?G sched) ! i = Sleeping k
          \<and> GetTxStatus E (clientOf (allNodes a) i) tx True k = Inr Committed"
    then have "fst (snd (?body i k (shared (?G sched)))) = Exit None"
      by (simp add: createSubnetWorker_committed)
    with h show "workers (?G (sched @ [Fire i])) ! i = Returned None"
      by (simp add: app len fire_exit)
  qed
  have never: "\<And>s i. i < ?n \<Longrightarrow> \<forall>k. GetTxStatus E (clientOf (allNodes a) i) tx True k \<noteq> Inr Committed
      \<Longrightarrow> fst (createSubnet P E a s) \<noteq> Some None"
  proof
    fix s i
    assume i: "i < ?n" and n: "\<forall>k. GetTxStatus E (clientOf (allNodes a) i) tx True k \<noteq> Inr Committed"
      and "fst (createSubnet P E a s) = Some None"
    then have "workers (?G s) ! i = Returned None"
      using waitResult_success [OF inv, of s] by (simp add: createSubnet_unfold(1) [OF sub] len)
    from observed [OF i this] n show False by blast
  qed
  have p4: "\<forall>i < ?n. (\<forall>k. GetTxStatus E (clientOf (allNodes a) i) tx True k \<noteq> Inr Committed) \<longrightarrow>
          fst (createSubnet P E a sched) \<noteq> Some None"
    using never by blast
  have p5: "\<forall>e. fst (createSubnet P E a sched) = Some (Some e) \<longrightarrow>
          (\<exists>i < ?n. \<exists>k. GetTxStatus E (clientOf (allNodes a) i) tx True k = Inl e)
          \<or> ParentDone e \<in> set sched"
  proof (intro allI impI)
    fix e assume "fst (createSubnet P E a sched) = Some (Some e)"
    then have "err (?G sched) = Some e"
      by (auto simp: res waitResult_def split: if_splits)
    with provenance [of ?iv ?body ?n "()" sched]
    have "fromBody ?body ?n e \<or> ParentDone e \<in> set sched"
      unfolding createSubnetGroup_def by blast
    then show "(\<exists>i < ?n. \<exists>k. GetTxStatus E (clientOf (allNodes a) i) tx True k = Inl e)
          \<or> ParentDone e \<in> set sched"
      unfolding fromBody_def using createSubnetWorker_err by blast
  qed
  have p6: "\<forall>e more. err (?G sched) = Some e \<longrightarrow> err (?G (sched @ more)) = Some e"
    by (simp add: app run_err)
  have p7: "\<forall>i < ?n. (\<forall>k. \<exists>e. GetTxStatus E (clientOf (allNodes a) i) tx True k = Inl e) \<longrightarrow>
          (\<exists>e. fst (createSubnet P E a (sched @ [Enter i, Fire i] @ drain ?n)) = Some (Some e))"
  proof (intro allI impI)
    fix i
    assume i: "i < ?n" and f: "\<forall>k. \<exists>e. GetTxStatus E (clientOf (allNodes a) i) tx True k = Inl e"
    then have nc: "\<forall>k. GetTxStatus E (clientOf (allNodes a) i) tx True k \<noteq> Inr Committed"
      by (metis sum.distinct(1))
    let ?g = "?G sched"
    let ?g2 = "run ?iv ?body [Enter i, Fire i] ?g"
    have il: "i < length (workers ?g)" using i len by simp
    have g2: "?g2 = ?G (sched @ [Enter i, Fire i])" by (simp add: app)
    have c: "ctxErr ?g2 \<noteq> None"
    proof (cases "workers ?g ! i")
      case (Returned r)
      show ?thesis
      proof (cases r)
        case None
        with Returned observed [OF i] nc show ?thesis by blast
      next
        case (Some e)
        with Returned have "ctxErr ?g \<noteq> None"
          using returned_error_cancels [OF inv il] by blast
        then show ?thesis by (simp add: run_ctxErr del: run.simps)
      qed
    next
      case (Ready k)
      obtain e where e: "GetTxStatus E (clientOf (allNodes a) i) tx True k = Inl e" using f by blast
      have "workers ?g2 ! i = Returned (Some e)"
        using turn_step [OF il, of k ?iv ?body] Ready createSubnetWorker_fails [OF e] by simp
      moreover have "errInv ?g2" unfolding g2 by (rule inv)
      ultimately show ?thesis using returned_error_cancels [of ?g2 i e] il by simp
    next
      case (Sleeping k)
      obtain e where e: "GetTxStatus E (clientOf (allNodes a) i) tx True k = Inl e" using f by blast
      have "workers ?g2 ! i = Returned (Some e)"
        using turn_step [OF il, of k ?iv ?body] Sleeping createSubnetWorker_fails [OF e] by simp
      moreover have "errInv ?g2" unfolding g2 by (rule inv)
      ultimately show ?thesis using returned_error_cancels [of ?g2 i e] il by simp
    qed
    have "waitResult (run ?iv ?body (drain (length (workers ?g2))) ?g2) \<noteq> None"
      using c by (rule drain_returns)
    moreover have "run ?iv ?body (drain (length (workers ?g2))) ?g2
        = ?G (sched @ [Enter i, Fire i] @ drain ?n)"
      using len by (simp add: createSubnetGroup_def final_append)
    ultimately have "fst (createSubnet P E a (sched @ [Enter i, Fire i] @ drain ?n)) \<noteq> None"
      by (simp add: createSubnet_unfold(1) [OF sub])
    moreover have "fst (createSubnet P E a (sched @ [Enter i, Fire i] @ drain ?n)) \<noteq> Some None"
      using never [OF i nc] .
    ultimately show "\<exists>e. fst (createSubnet P E a (sched @ [Enter i, Fire i] @ drain ?n)) = Some (Some e)"
      by (cases "fst (createSubnet P E a (sched @ [Enter i, Fire i] @ drain ?n))") auto
  qed
  have p8: "\<forall>c. ParentDone c \<in> set sched \<longrightarrow> fst (createSubnet P E a (sched @ drain ?n)) \<noteq> None"
  proof (intro allI impI)
    fix c assume "ParentDone c \<in> set sched"
    then have "ctxErr (?G sched) \<noteq> None"
      unfolding createSubnetGroup_def final_def by (rule ParentDone_ctxErr)
    then have "waitResult (run ?iv ?body (drain (length (workers (?G sched)))) (?G sched)) \<noteq> None"
      by (rule drain_returns)
    then show "fst (createSubnet P E a (sched @ drain ?n)) \<noteq> None"
      by (simp add: createSubnet_unfold(1) [OF sub] app len)
  qed
  have p9: "(\<forall>c. ParentDone c \<notin> set sched)
          \<and> (\<forall>j < ?n. \<forall>k e. GetTxStatus E (clientOf (allNodes a) j) tx True k \<noteq> Inl e)
          \<and> (\<exists>i < ?n. \<forall>k. GetTxStatus E (clientOf (allNodes a) i) tx True k \<noteq> Inr Committed) \<longrightarrow>
          fst (createSubnet P E a sched) = None"
  proof
    assume h: "(\<forall>c. ParentDone c \<notin> set sched)
          \<and> (\<forall>j < ?n. \<forall>k e. GetTxStatus E (clientOf (allNodes a) j) tx True k \<noteq> Inl e)
          \<and> (\<exists>i < ?n. \<forall>k. GetTxStatus E (clientOf (allNodes a) i) tx True k \<noteq> Inr Committed)"
    show "fst (createSubnet P E a sched) = None"
    proof (cases "fst (createSubnet P E a sched)")
      case (Some r)
      show ?thesis
      proof (cases r)
        case None
        with Some h p4 show ?thesis by blast
      next
        case (Some e)
        with \<open>fst (createSubnet P E a sched) = Some r\<close> p5
        have "(\<exists>i < ?n. \<exists>k. GetTxStatus E (clientOf (allNodes a) i) tx True k = Inl e)
            \<or> ParentDone e \<in> set sched" by blast
        with h show ?thesis by blast
      qed
    qed simp
  qed
  from p1 p2 p3 p4 p5 p6 p7 p8 p9 show ?thesis by (intro conjI)
qed

lemmas example_defs = exampleArgs_def exampleEnv_def exampleNodes_def exampleParams_def
  node1_def node2_def unreachableEnv_def pendingEnv_def flakyEnv_def brokenStatusEnv_def
  noGenesisEnv_def

lemmas group_eval = final_def spawn_def step.simps finish_def waitResult_def Let_def
  createSubnetGroup_def clientOf_def createSubnetWorker_def

text \<open>
  On the example fleet: both nodes commit; the second node stays in \<open>Processing\<close>; the
  second node cannot be reached.
\<close>

theorem createSubnet_fleet_wait_witness:
  "fst (createSubnet exampleParams exampleEnv exampleArgs [Enter 0, Fire 0, Enter 1, Fire 1]) = Some None
   \<and> Call_GetTxStatus (Client 2) (MkID 7) True (Inr Committed)
        \<in> set (snd (createSubnet exampleParams exampleEnv exampleArgs [Enter 0, Fire 0, Enter 1, Fire 1]))
   \<and> workers (createSubnetGroup exampleParams exampleEnv exampleArgs (MkID 7) ([Enter 0] @ [Fire 0])) ! 0
        = Returned None
   \<and> (\<forall>k. GetTxStatus pendingEnv (Client 2) (MkID 7) True k \<noteq> Inr Committed)
   \<and> fst (createSubnet exampleParams pendingEnv exampleArgs [Enter 0, Fire 0, Enter 1, Fire 1]) \<noteq> Some None
   \<and> fst (createSubnet exampleParams unreachableEnv exampleArgs [Enter 0, Fire 0, Enter 1, Fire 1])
        = Some (Some (Msg ''unreachable''))
   \<and> (\<exists>k. GetTxStatus unreachableEnv (Client 2) (MkID 7) True k = Inl (Msg ''unreachable''))
   \<and> err (createSubnetGroup exampleParams unreachableEnv exampleArgs (MkID 7)
            ([Enter 1, Fire 1] @ [Enter 0, Fire 0])) = Some (Msg ''unreachable'')
   \<and> (\<exists>e. fst (createSubnet exampleParams unreachableEnv exampleArgs ([] @ [Enter 1, Fire 1] @ drain 2))
            = Some (Some e))
   \<and> fst (createSubnet exampleParams pendingEnv exampleArgs
            ([ParentDone ContextDeadlineExceeded] @ drain 2)) \<noteq> None
   \<and> fst (createSubnet exampleParams pendingEnv exampleArgs [Enter 0, Fire 0, Enter 1, Fire 1]) = None"
proof -
  let ?S = "[Enter 0, Fire 0, Enter 1, Fire 1]"
  have n: "length (allNodes exampleArgs) = 2" by (simp add: example_defs)
  have c: "clientOf (allNodes exampleArgs) 1 = Client 2" "clientOf (allNodes exampleArgs) 0 = Client 1"
    by (simp_all add: example_defs clientOf_def)
  have sub: "CreateSubnet exampleEnv (txPChainClient exampleArgs) (userPass exampleArgs)
     [fundedAddress exampleArgs] (fundedAddress exampleArgs) [fundedAddress exampleArgs]
     (defaultKeyThreshold exampleParams) = Inr (MkID 7)"
    by (simp add: example_defs)
  have subU: "CreateSubnet unreachableEnv (txPChainClient exampleArgs) (userPass exampleArgs)
     [fundedAddress exampleArgs] (fundedAddress exampleArgs) [fundedAddress exampleArgs]
     (defaultKeyThreshold exampleParams) = Inr (MkID 7)"
    by (simp add: example_defs)
  have subP: "CreateSubnet pendingEnv (txPChainClient exampleArgs) (userPass exampleArgs)
     [fundedAddress exampleArgs] (fundedAddress exampleArgs) [fundedAddress exampleArgs]
     (defaultKeyThreshold exampleParams) = Inr (MkID 7)"
    by (simp add: example_defs)
  have all: "\<forall>i < length (allNodes exampleArgs).
      workers (createSubnetGroup exampleParams exampleEnv exampleArgs (MkID 7) ?S) ! i = Returned None"
    by (simp add: example_defs group_eval All_less_Suc)
  note T = createSubnet_fleet_wait [OF sub]
  note U = createSubnet_fleet_wait [OF subU]
  note V = createSubnet_fleet_wait [OF subP]
  have a1: "fst (createSubnet exampleParams exampleEnv exampleArgs ?S) = Some None"
    using T [of ?S, THEN conjunct1] all by simp
  have "workers (createSubnetGroup exampleParams exampleEnv exampleArgs (MkID 7) ?S) ! 1 = Returned None"
    using all n by simp
  then have a2: "Call_GetTxStatus (Client 2) (MkID 7) True (Inr Committed)
        \<in> set (snd (createSubnet exampleParams exampleEnv exampleArgs ?S))"
    using T [of ?S, THEN conjunct2, THEN conjunct1, rule_format, of 1] n c by simp
  have sl: "0 < length (allNodes exampleArgs)
      \<and> workers (createSubnetGroup exampleParams exampleEnv exampleArgs (MkID 7) [Enter 0]) ! 0 = Sleeping 0
      \<and> GetTxStatus exampleEnv (clientOf (allNodes exampleArgs) 0) (MkID 7) True 0 = Inr Committed"
    by (simp add: example_defs group_eval)
  have a3: "workers (createSubnetGroup exampleParams exampleEnv exampleArgs (MkID 7) ([Enter 0] @ [Fire 0])) ! 0
        = Returned None"
    using T [of "[Enter 0]", THEN conjunct2, THEN conjunct2, THEN conjunct1, rule_format, of 0 0] sl
    by simp
  have np: "\<forall>k. GetTxStatus pendingEnv (Client 2) (MkID 7) True k \<noteq> Inr Committed"
    by (simp add: example_defs)
  have a4: "fst (createSubnet exampleParams pendingEnv exampleArgs ?S) \<noteq> Some None"
    using V [of ?S, THEN conjunct2, THEN conjunct2, THEN conjunct2, THEN conjunct1, rule_format, of 1]
      np n c by simp
  have r5: "fst (createSubnet exampleParams unreachableEnv exampleArgs ?S)
        = Some (Some (Msg ''unreachable''))"
    by (simp add: example_defs group_eval createSubnet_def groupWait_def)
  have "(\<exists>i < length (allNodes exampleArgs). \<exists>k.
           GetTxStatus unreachableEnv (clientOf (allNodes exampleArgs) i) (MkID 7) True k
             = Inl (Msg ''unreachable''))
        \<or> ParentDone (Msg ''unreachable'') \<in> set ?S"
    using U [of ?S, THEN conjunct2, THEN conjunct2, THEN conjunct2, THEN conjunct2, THEN conjunct1,
        rule_format, of "Msg ''unreachable''"] r5 by simp
  then have a5: "\<exists>k. GetTxStatus unreachableEnv (Client 2) (MkID 7) True k = Inl (Msg ''unreachable'')"
    by (auto simp: example_defs)
  have e6: "err (createSubnetGroup exampleParams unreachableEnv exampleArgs (MkID 7) [Enter 1, Fire 1])
      = Some (Msg ''unreachable'')"
    by (simp add: example_defs group_eval)
  have a6: "err (createSubnetGroup exampleParams unreachableEnv exampleArgs (MkID 7)
            ([Enter 1, Fire 1] @ [Enter 0, Fire 0])) = Some (Msg ''unreachable'')"
    using U [of "[Enter 1, Fire 1]", THEN conjunct2, THEN conjunct2, THEN conjunct2, THEN conjunct2,
        THEN conjunct2, THEN conjunct1, rule_format, of "Msg ''unreachable''" "[Enter 0, Fire 0]"] e6
    by simp
  have f7: "\<forall>k. \<exists>e. GetTxStatus unreachableEnv (clientOf (allNodes exampleArgs) 1) (MkID 7) True k = Inl e"
    by (simp add: example_defs clientOf_def)
  have a7: "\<exists>e. fst (createSubnet exampleParams unreachableEnv exampleArgs ([] @ [Enter 1, Fire 1] @ drain 2))
            = Some (Some e)"
    using U [of "[]", THEN conjunct2, THEN conjunct2, THEN conjunct2, THEN conjunct2,
        THEN conjunct2, THEN conjunct2, THEN conjunct1, rule_format, of 1] f7 n
    by simp
  have a8: "fst (createSubnet exampleParams pendingEnv exampleArgs
            ([ParentDone ContextDeadlineExceeded] @ drain 2)) \<noteq> None"
    using V [of "[ParentDone ContextDeadlineExceeded]", THEN conjunct2, THEN conjunct2, THEN conjunct2,
        THEN conjunct2, THEN conjunct2, THEN conjunct2, THEN conjunct2, THEN conjunct1, rule_format,
        of ContextDeadlineExceeded] n
    by simp
  have h9: "(\<forall>c. ParentDone c \<notin> set ?S)
      \<and> (\<forall>j < length (allNodes exampleArgs). \<forall>k e.
            GetTxStatus pendingEnv (clientOf (allNodes exampleArgs) j) (MkID 7) True k \<noteq> Inl e)
      \<and> (\<exists>i < length (allNodes exampleArgs). \<forall>k.
            GetTxStatus pendingEnv (clientOf (allNodes exampleArgs) i) (MkID 7) True k \<noteq> Inr Committed)"
  proof (intro conjI)
    show "\<forall>c. ParentDone c \<notin> set ?S" by simp
    show "\<forall>j < length (allNodes exampleArgs). \<forall>k e.
            GetTxStatus pendingEnv (clientOf (allNodes exampleArgs) j) (MkID 7) True k \<noteq> Inl e"
      by (simp add: example_defs)
    have "1 < length (allNodes exampleArgs) \<and> (\<forall>k.
            GetTxStatus pendingEnv (clientOf (allNodes exampleArgs) 1) (MkID 7) True k \<noteq> Inr Committed)"
      using np n c by simp
    then show "\<exists>i < length (allNodes exampleArgs). \<forall>k.
            GetTxStatus pendingEnv (clientOf (allNodes exampleArgs) i) (MkID 7) True k \<noteq> Inr Committed"
      by blast
  qed
  have a9: "fst (createSubnet exampleParams pendingEnv exampleArgs ?S) = None"
    by (rule V [of ?S, THEN conjunct2, THEN conjunct2, THEN conjunct2, THEN conjunct2,
        THEN conjunct2, THEN conjunct2, THEN conjunct2, THEN conjunct2, rule_format, OF h9])
  from a1 a2 a3 np a4 r5 a5 a6 a7 a8 a9 show ?thesis by (intro conjI)
qed

section \<open>Properties of the finalization waits\<close>

lemma allTurns_list:
  assumes ex: "\<forall>i < length (workers g0). \<exists>t \<le> B. \<forall>s. fst (snd (body i t s)) \<noteq> Continue"
  shows "contInv body g \<Longrightarrow> length (workers g) = length (workers g0) \<Longrightarrow> j < length (workers g) \<Longrightarrow>
     j \<in> set js \<or> isReturned (workers g ! j) \<Longrightarrow>
     isReturned (workers (run iv body (concat (map (turns (Suc B)) js)) g) ! j)"
proof (induction js arbitrary: g)
  case Nil
  then show ?case by simp
next
  case (Cons a js)
  let ?g' = "run iv body (turns (Suc B) a) g"
  have r: "run iv body (concat (map (turns (Suc B)) (a # js))) g
      = run iv body (concat (map (turns (Suc B)) js)) ?g'"
    by (simp add: run_append)
  have c: "contInv body ?g'" using Cons.prems(1) by (rule contInv_run)
  have l: "length (workers ?g') = length (workers g0)" using Cons.prems(2) by simp
  have jl: "j < length (workers ?g')" using Cons.prems(3) by simp
  have "j \<in> set js \<or> isReturned (workers ?g' ! j)"
  proof (cases "j = a")
    case False
    then show ?thesis using Cons.prems(4) by (auto simp: isReturned_run)
  next
    case True
    have "isReturned (workers ?g' ! j)"
    proof (cases "workers g ! j")
      case (Returned x)
      then show ?thesis by (simp add: isReturned_run)
    next
      case (Ready k)
      from ex Cons.prems(2,3) obtain t where t: "t \<le> B" "\<forall>s. fst (snd (body j t s)) \<noteq> Continue"
        by metis
      have "k \<le> t"
      proof (rule ccontr)
        assume "\<not> k \<le> t"
        then have "t < k" by simp
        with Cons.prems(1,3) Ready have "\<exists>s. fst (snd (body j t s)) = Continue"
          unfolding contInv_def by blast
        with t(2) show False by blast
      qed
      moreover have "t < k + Suc B" using t(1) by simp
      ultimately show ?thesis
        using turns_progress [OF Cons.prems(3), of k body t "Suc B" iv] Ready t(2) True by simp
    next
      case (Sleeping k)
      from ex Cons.prems(2,3) obtain t where t: "t \<le> B" "\<forall>s. fst (snd (body j t s)) \<noteq> Continue"
        by metis
      have "k \<le> t"
      proof (rule ccontr)
        assume "\<not> k \<le> t"
        then have "t < k" by simp
        with Cons.prems(1,3) Sleeping have "\<exists>s. fst (snd (body j t s)) = Continue"
          unfolding contInv_def by blast
        with t(2) show False by blast
      qed
      moreover have "t < k + Suc B" using t(1) by simp
      ultimately show ?thesis
        using turns_progress [OF Cons.prems(3), of k body t "Suc B" iv] Sleeping t(2) True by simp
    qed
    then show ?thesis by simp
  qed
  from Cons.IH [OF c l jl this] show ?case unfolding r .
qed

lemma allTurns_returns:
  assumes "\<forall>i < n. \<exists>t \<le> B. \<forall>s. fst (snd (body i t s)) \<noteq> Continue"
  shows "waitResult (final iv body n sh (sched @ allTurns (Suc B) n))
     = Some (err (final iv body n sh (sched @ allTurns (Suc B) n)))"
proof -
  let ?g = "final iv body n sh sched"
  have ex: "\<forall>i < length (workers ?g). \<exists>t \<le> B. \<forall>s. fst (snd (body i t s)) \<noteq> Continue"
    using assms by simp
  have "\<And>j. j < n \<Longrightarrow> isReturned (workers (run iv body (allTurns (Suc B) n) ?g) ! j)"
    unfolding allTurns_def
    using allTurns_list [OF ex contInv_final, where js = "[0..<n]" and iv = iv] by simp
  then have "list_all isReturned (workers (final iv body n sh (sched @ allTurns (Suc B) n)))"
    by (simp add: list_all_length final_append)
  then show ?thesis by (simp add: waitResult_def)
qed

lemma fire_continue:
  assumes "i < length (workers g)" "workers g ! i = Sleeping k"
    "fst (snd (body i k (shared g))) = Continue"
  shows "workers (step iv body (Fire i) g) ! i = Ready (Suc k)"
    and "err (step iv body (Fire i) g) = err g"
proof -
  obtain cs out sh' where b: "body i k (shared g) = (cs, out, sh')"
    by (cases "body i k (shared g)") auto
  with assms show "workers (step iv body (Fire i) g) ! i = Ready (Suc k)"
    and "err (step iv body (Fire i) g) = err g"
    by (auto simp: step.simps)
qed

lemma fire_exit_err:
  assumes "i < length (workers g)" "workers g ! i = Sleeping k"
    "fst (snd (body i k (shared g))) = Exit (Some e)" "err g = None"
  shows "err (step iv body (Fire i) g) = Some e"
proof -
  obtain cs out sh' where b: "body i k (shared g) = (cs, out, sh')"
    by (cases "body i k (shared g)") auto
  with assms show ?thesis by (auto simp: step.simps finish_def Let_def)
qed

lemma ensureBootstrappedWorker_out:
  "fst (snd (ensureBootstrappedWorker E nodes bid i k s)) =
     (if fst (IsBootstrapped E (clientOf nodes i) (IDString E bid) k) then Exit None else Continue)"
  by (simp add: ensureBootstrappedWorker_def clientOf_def Let_def)

lemma ensureBootstrappedWorker_no_error:
  "\<not> fromBody (ensureBootstrappedWorker E nodes bid) n e"
  by (auto simp: fromBody_def ensureBootstrappedWorker_def Let_def split: if_splits)

lemma ensureValidatingWorker_fails:
  "GetBlockchainStatus E (clientOf nodes i) (IDString E bid) k = Inl e \<Longrightarrow>
     fst (snd (ensureValidatingWorker P E nodes bid i k s))
       = Exit (Some (Wrap ''error querying blockchain status'' e))"
  by (simp add: ensureValidatingWorker_def clientOf_def Let_def)

lemma ensureBootstrapped_unfold:
  "fst (ensureBootstrapped P E nodes bid sched) = waitResult (ensureBootstrappedGroup P E nodes bid sched)"
  by (simp add: ensureBootstrapped_def groupWait_def ensureBootstrappedGroup_def Let_def)

lemma ensureValidating_unfold:
  "fst (ensureValidating P E nodes bid sched) = waitResult (ensureValidatingGroup P E nodes bid sched)"
  by (simp add: ensureValidating_def groupWait_def ensureValidatingGroup_def Let_def)

lemma ensureValidatingWorker_cases:
  "ensureValidatingWorker P E nodes bid i k s = (cs, out, s') \<Longrightarrow>
     (GetBlockchainStatus E (clientOf nodes i) (IDString E bid) k = Inr Validating
        \<and> out = Exit None \<and> s' = apiRetryFreq P)
     \<or> (GetBlockchainStatus E (clientOf nodes i) (IDString E bid) k \<noteq> Inr Validating
        \<and> out \<noteq> Exit None \<and> s' = s)"
  by (auto simp: ensureValidatingWorker_def clientOf_def Let_def split: sum.splits if_splits)

lemma ensureBootstrappedWorker_calls:
  "\<exists>l. fst (ensureBootstrappedWorker E nodes bid i k u)
     = [Call_IsBootstrapped (clientOf nodes i) (IDString E bid)
          (IsBootstrapped E (clientOf nodes i) (IDString E bid) k), l]"
  by (simp add: ensureBootstrappedWorker_def clientOf_def Let_def)

lemma ensureBootstrappedWorker_ok:
  "ensureBootstrappedWorker E nodes bid i k s = (cs, Exit None, s') \<Longrightarrow>
     fst (IsBootstrapped E (clientOf nodes i) (IDString E bid) k)
     \<and> Call_IsBootstrapped (clientOf nodes i) (IDString E bid)
          (IsBootstrapped E (clientOf nodes i) (IDString E bid) k) \<in> set cs"
  by (auto simp: ensureBootstrappedWorker_def clientOf_def Let_def split: if_splits)

lemma ensureValidatingWorker_calls:
  "\<exists>l. fst (ensureValidatingWorker P E nodes bid i k u)
     = Call_GetBlockchainStatus (clientOf nodes i) (IDString E bid)
          (GetBlockchainStatus E (clientOf nodes i) (IDString E bid) k) # l"
  by (auto simp: ensureValidatingWorker_def clientOf_def Let_def split: sum.splits)

lemma ensureBootstrapped_tied:
  "fst (ensureBootstrapped P E nodes bid sched) = waitResult (ensureBootstrappedGroup P E nodes bid sched)
   \<and> snd (ensureBootstrapped P E nodes bid sched)
       = trace (ensureBootstrappedGroup P E nodes bid sched)
         @ (case fst (ensureBootstrapped P E nodes bid sched) of None \<Rightarrow> [] | Some r \<Rightarrow> [Call_Wait r])"
  by (simp add: ensureBootstrapped_def groupWait_def ensureBootstrappedGroup_def Let_def)

lemma ensureValidating_tied:
  "fst (ensureValidating P E nodes bid sched) = waitResult (ensureValidatingGroup P E nodes bid sched)
   \<and> snd (ensureValidating P E nodes bid sched)
       = trace (ensureValidatingGroup P E nodes bid sched)
         @ (case fst (ensureValidating P E nodes bid sched) of None \<Rightarrow> [] | Some r \<Rightarrow> [Call_Wait r])"
  by (simp add: ensureValidating_def groupWait_def ensureValidatingGroup_def Let_def)

lemma ensureBootstrapped_success:
  "(fst (ensureBootstrapped P E nodes bid sched) = Some None)
     = (\<forall>i < length nodes. workers (ensureBootstrappedGroup P E nodes bid sched) ! i = Returned None)"
proof -
  have "errInv (ensureBootstrappedGroup P E nodes bid sched)"
    by (simp add: ensureBootstrappedGroup_def errInv_final)
  from waitResult_success [OF this] show ?thesis
    by (simp add: ensureBootstrapped_unfold ensureBootstrappedGroup_def)
qed

lemma ensureValidating_success:
  "(fst (ensureValidating P E nodes bid sched) = Some None)
     = (\<forall>i < length nodes. workers (ensureValidatingGroup P E nodes bid sched) ! i = Returned None)"
proof -
  have "errInv (ensureValidatingGroup P E nodes bid sched)"
    by (simp add: ensureValidatingGroup_def errInv_final)
  from waitResult_success [OF this] show ?thesis
    by (simp add: ensureValidating_unfold ensureValidatingGroup_def)
qed

lemma ensureBootstrapped_observed:
  assumes "i < length nodes"
    "workers (ensureBootstrappedGroup P E nodes bid sched) ! i = Returned None"
  shows "\<exists>k. fst (IsBootstrapped E (clientOf nodes i) (IDString E bid) k)
     \<and> Call_IsBootstrapped (clientOf nodes i) (IDString E bid)
          (IsBootstrapped E (clientOf nodes i) (IDString E bid) k)
        \<in> set (snd (ensureBootstrapped P E nodes bid sched))"
proof -
  let ?body = "ensureBootstrappedWorker E nodes bid"
  from assms okInv_final [of ?body "\<lambda>u. apiRetryFreq P" "length nodes" "()" sched]
  obtain k u cs u' where b: "?body i k u = (cs, Exit None, u')"
    and t: "set cs \<subseteq> set (trace (ensureBootstrappedGroup P E nodes bid sched))"
    unfolding okInv_def ensureBootstrappedGroup_def by (metis final_length)
  have "set (trace (ensureBootstrappedGroup P E nodes bid sched))
      \<subseteq> set (snd (ensureBootstrapped P E nodes bid sched))"
    using ensureBootstrapped_tied [of P E nodes bid sched] by (metis set_append sup_ge1)
  with t ensureBootstrappedWorker_ok [OF b] show ?thesis by blast
qed

lemma ensureBootstrapped_never:
  assumes "\<exists>i < length nodes. \<forall>k. \<not> fst (IsBootstrapped E (clientOf nodes i) (IDString E bid) k)"
  shows "fst (ensureBootstrapped P E nodes bid sched) \<noteq> Some None"
proof
  assume "fst (ensureBootstrapped P E nodes bid sched) = Some None"
  then have a: "\<forall>i < length nodes. workers (ensureBootstrappedGroup P E nodes bid sched) ! i = Returned None"
    by (simp add: ensureBootstrapped_success)
  from assms obtain i where i: "i < length nodes"
    "\<forall>k. \<not> fst (IsBootstrapped E (clientOf nodes i) (IDString E bid) k)" by blast
  with a ensureBootstrapped_observed [of i nodes P E bid sched] show False by blast
qed

lemma ensureBootstrapped_retry:
  assumes i: "i < length nodes"
    and s: "workers (ensureBootstrappedGroup P E nodes bid sched) ! i = Sleeping k"
    and f: "\<not> fst (IsBootstrapped E (clientOf nodes i) (IDString E bid) k)"
  shows "trace (ensureBootstrappedGroup P E nodes bid (sched @ [Fire i, Enter i, Fire i]))
     = trace (ensureBootstrappedGroup P E nodes bid sched)
       @ fst (ensureBootstrappedWorker E nodes bid i k ())
       @ [Call_TimeAfter (apiRetryFreq P)]
       @ fst (ensureBootstrappedWorker E nodes bid i (Suc k) ())"
proof -
  let ?body = "ensureBootstrappedWorker E nodes bid"
  let ?iv = "\<lambda>u::unit. apiRetryFreq P"
  let ?g = "ensureBootstrappedGroup P E nodes bid sched"
  have il: "i < length (workers ?g)" using i by (simp add: ensureBootstrappedGroup_def)
  obtain cs out u where b: "?body i k (shared ?g) = (cs, out, u)"
    by (cases "?body i k (shared ?g)") auto
  have out: "out = Continue" using b f ensureBootstrappedWorker_out [of E nodes bid i k "shared ?g"]
    by simp
  have cs: "cs = fst (?body i k ())" using b by simp
  let ?g1 = "step ?iv ?body (Fire i) ?g"
  have g1: "workers ?g1 ! i = Ready (Suc k)" "trace ?g1 = trace ?g @ cs" "length (workers ?g1) = length (workers ?g)"
    using il s b out by (simp_all add: step.simps)
  let ?g2 = "step ?iv ?body (Enter i) ?g1"
  have g2: "workers ?g2 ! i = Sleeping (Suc k)" "trace ?g2 = trace ?g1 @ [Call_TimeAfter (apiRetryFreq P)]"
    "length (workers ?g2) = length (workers ?g)"
    using il g1 by (simp_all add: step.simps)
  obtain cs' out' u' where b': "?body i (Suc k) (shared ?g2) = (cs', out', u')"
    by (cases "?body i (Suc k) (shared ?g2)") auto
  have cs': "cs' = fst (?body i (Suc k) ())" using b' by simp
  let ?g3 = "step ?iv ?body (Fire i) ?g2"
  have g3: "trace ?g3 = trace ?g2 @ cs'"
    using il g2 b' by (cases out') (simp_all add: step.simps)
  have "ensureBootstrappedGroup P E nodes bid (sched @ [Fire i, Enter i, Fire i]) = ?g3"
    by (simp add: ensureBootstrappedGroup_def final_append)
  with g1 g2 g3 cs cs' show ?thesis by simp
qed


lemma sleeping_not_returned:
  "i < length (workers g) \<Longrightarrow> workers g ! i = Sleeping k \<Longrightarrow> waitResult g = None"
  by (auto simp: waitResult_def list_all_length)

lemma ensureValidating_observed:
  assumes "i < length nodes"
    "workers (ensureValidatingGroup P E nodes bid sched) ! i = Returned None"
  shows "\<exists>k. GetBlockchainStatus E (clientOf nodes i) (IDString E bid) k = Inr Validating
     \<and> Call_GetBlockchainStatus (clientOf nodes i) (IDString E bid) (Inr Validating)
        \<in> set (snd (ensureValidating P E nodes bid sched))"
proof -
  let ?body = "ensureValidatingWorker P E nodes bid"
  from assms okInv_final [of ?body "\<lambda>t. t" "length nodes" "longTimeout P" sched]
  obtain k u cs u' where b: "?body i k u = (cs, Exit None, u')"
    and t: "set cs \<subseteq> set (trace (ensureValidatingGroup P E nodes bid sched))"
    unfolding okInv_def ensureValidatingGroup_def by (metis final_length)
  have v: "GetBlockchainStatus E (clientOf nodes i) (IDString E bid) k = Inr Validating"
    using ensureValidatingWorker_cases [OF b] by simp
  have "fst (?body i k u) = cs" using b by simp
  with ensureValidatingWorker_calls [of P E nodes bid i k u] v
  have "Call_GetBlockchainStatus (clientOf nodes i) (IDString E bid) (Inr Validating) \<in> set cs"
    by auto
  moreover have "set (trace (ensureValidatingGroup P E nodes bid sched))
      \<subseteq> set (snd (ensureValidating P E nodes bid sched))"
    using ensureValidating_tied [of P E nodes bid sched] by (metis set_append sup_ge1)
  ultimately show ?thesis using t v by blast
qed

lemma ensureValidating_failed_query:
  assumes i: "i < length nodes"
    and s: "workers (ensureValidatingGroup P E nodes bid sched) ! i = Sleeping k"
    and f: "GetBlockchainStatus E (clientOf nodes i) (IDString E bid) k = Inl e"
  shows "trace (ensureValidatingGroup P E nodes bid (sched @ [Fire i]))
     = trace (ensureValidatingGroup P E nodes bid sched)
       @ [Call_GetBlockchainStatus (clientOf nodes i) (IDString E bid) (Inl e)]
   \<and> workers (ensureValidatingGroup P E nodes bid (sched @ [Fire i])) ! i
       = Returned (Some (Wrap ''error querying blockchain status'' e))"
proof -
  let ?body = "ensureValidatingWorker P E nodes bid"
  let ?g = "ensureValidatingGroup P E nodes bid sched"
  have il: "i < length (workers ?g)" using i by (simp add: ensureValidatingGroup_def)
  have b: "?body i k (shared ?g)
      = ([Call_GetBlockchainStatus (clientOf nodes i) (IDString E bid) (Inl e)],
         Exit (Some (Wrap ''error querying blockchain status'' e)), shared ?g)"
    using f by (simp add: ensureValidatingWorker_def clientOf_def Let_def)
  have "ensureValidatingGroup P E nodes bid (sched @ [Fire i]) = step (\<lambda>t. t) ?body (Fire i) ?g"
    by (simp add: ensureValidatingGroup_def final_snoc)
  then show ?thesis using il s b by (simp add: step.simps finish_def Let_def)
qed

text \<open>
  Claim C5. The two waits of the finalization treat a failing query differently, for every
  schedule.
  In \<^verbatim>\<open>ensureBootstrapped\<close> the error of \<^verbatim>\<open>IsBootstrapped\<close> is dropped: an error the wait
  returns is the error of the caller's context; a worker whose query fails goes back to
  the top of its loop and the group keeps no error; and if each node reports true at some
  query up to the \<open>B\<close>-th, then, whatever failed before, the wait returns nil once every
  worker has had \<open>B + 1\<close> more iterations, unless the caller's context ended.
  In \<^verbatim>\<open>ensureValidating\<close> the first failing query ends the wait: the group keeps that
  error, wrapped, and cancels the other workers in the same step; no continuation returns
  anything else, and the wait returns it as soon as every worker has reached its next
  \<^verbatim>\<open>select\<close>.

  The result and the trace of both functions are those of their group of workers: the
  result is what \<^verbatim>\<open>g.Wait\<close> gives on the final state of the group, the trace is the trace
  of the group followed by the return of \<^verbatim>\<open>g.Wait\<close>. So:
  \<^item> \<^verbatim>\<open>ensureBootstrapped\<close> returns nil only if, for every node, its trace holds an
    \<^verbatim>\<open>IsBootstrapped\<close> query to that node which answered true;
  \<^item> if some node never answers true, it never returns nil, and it does not return at all
    unless the caller's context ends;
  \<^item> the retry is in the trace: when a query to node \<open>i\<close> fails and worker \<open>i\<close> runs its
    next iteration, the trace of \<^verbatim>\<open>ensureBootstrapped\<close> is extended by exactly the failed
    query, the debug line, \<^verbatim>\<open>time.After(apiRetryFreq)\<close>, the next query to the same node and
    the line logged for its answer;
  \<^item> \<^verbatim>\<open>ensureValidating\<close> returns nil only if, for every node, its trace holds a
    \<^verbatim>\<open>GetBlockchainStatus\<close> query to that node which answered \<open>Validating\<close>;
  \<^item> a failing status query is the last entry its worker adds to the trace of
    \<^verbatim>\<open>ensureValidating\<close>: the worker has returned the wrapped error.
\<close>

theorem finalization_query_errors:
  "(\<forall>e. fst (ensureBootstrapped P E nodes bid sched) = Some (Some e) \<longrightarrow> ParentDone e \<in> set sched)
   \<and> (\<forall>i k e. i < length nodes \<and> workers (ensureBootstrappedGroup P E nodes bid sched) ! i = Sleeping k
         \<and> IsBootstrapped E (clientOf nodes i) (IDString E bid) k = (False, Some e) \<longrightarrow>
         workers (ensureBootstrappedGroup P E nodes bid (sched @ [Fire i])) ! i = Ready (Suc k)
         \<and> err (ensureBootstrappedGroup P E nodes bid (sched @ [Fire i]))
             = err (ensureBootstrappedGroup P E nodes bid sched))
   \<and> ((\<forall>c. ParentDone c \<notin> set sched)
         \<and> (\<forall>i < length nodes. \<exists>t \<le> B. fst (IsBootstrapped E (clientOf nodes i) (IDString E bid) t)) \<longrightarrow>
         fst (ensureBootstrapped P E nodes bid (sched @ allTurns (Suc B) (length nodes))) = Some None)
   \<and> (\<forall>i k e. i < length nodes \<and> workers (ensureValidatingGroup P E nodes bid sched) ! i = Sleeping k
         \<and> err (ensureValidatingGroup P E nodes bid sched) = None
         \<and> GetBlockchainStatus E (clientOf nodes i) (IDString E bid) k = Inl e \<longrightarrow>
         err (ensureValidatingGroup P E nodes bid (sched @ [Fire i]))
           = Some (Wrap ''error querying blockchain status'' e)
         \<and> ctxErr (ensureValidatingGroup P E nodes bid (sched @ [Fire i])) \<noteq> None
         \<and> (\<forall>more. fst (ensureValidating P E nodes bid (sched @ [Fire i] @ more)) = None
               \<or> fst (ensureValidating P E nodes bid (sched @ [Fire i] @ more))
                   = Some (Some (Wrap ''error querying blockchain status'' e)))
         \<and> fst (ensureValidating P E nodes bid (sched @ [Fire i] @ drain (length nodes)))
             = Some (Some (Wrap ''error querying blockchain status'' e)))
   \<and> (fst (ensureBootstrapped P E nodes bid sched) = waitResult (ensureBootstrappedGroup P E nodes bid sched)
     \<and> snd (ensureBootstrapped P E nodes bid sched)
         = trace (ensureBootstrappedGroup P E nodes bid sched)
           @ (case fst (ensureBootstrapped P E nodes bid sched) of None \<Rightarrow> [] | Some r \<Rightarrow> [Call_Wait r]))
   \<and> (fst (ensureBootstrapped P E nodes bid sched) = Some None \<longrightarrow>
        (\<forall>i < length nodes. \<exists>k. fst (IsBootstrapped E (clientOf nodes i) (IDString E bid) k)
           \<and> Call_IsBootstrapped (clientOf nodes i) (IDString E bid)
                (IsBootstrapped E (clientOf nodes i) (IDString E bid) k)
              \<in> set (snd (ensureBootstrapped P E nodes bid sched))))
   \<and> ((\<exists>i < length nodes. \<forall>k. \<not> fst (IsBootstrapped E (clientOf nodes i) (IDString E bid) k)) \<longrightarrow>
        fst (ensureBootstrapped P E nodes bid sched) \<noteq> Some None
        \<and> ((\<forall>c. ParentDone c \<notin> set sched) \<longrightarrow> fst (ensureBootstrapped P E nodes bid sched) = None))
   \<and> (\<forall>i k e. i < length nodes \<and> workers (ensureBootstrappedGroup P E nodes bid sched) ! i = Sleeping k
         \<and> IsBootstrapped E (clientOf nodes i) (IDString E bid) k = (False, Some e) \<longrightarrow>
         (\<exists>l. snd (ensureBootstrapped P E nodes bid (sched @ [Fire i, Enter i, Fire i]))
            = snd (ensureBootstrapped P E nodes bid sched)
              @ [Call_IsBootstrapped (clientOf nodes i) (IDString E bid) (False, Some e),
                 Log_Debug ''waiting for %s to bootstrap %s''
                   [ArgStr (PrefixedString (GetNodeID (snd (nodes ! i))) NodeIDPrefix),
                    ArgStr (IDString E bid)],
                 Call_TimeAfter (apiRetryFreq P),
                 Call_IsBootstrapped (clientOf nodes i) (IDString E bid)
                   (IsBootstrapped E (clientOf nodes i) (IDString E bid) (Suc k)),
                 l]
              @ (case fst (ensureBootstrapped P E nodes bid (sched @ [Fire i, Enter i, Fire i])) of
                   None \<Rightarrow> [] | Some r \<Rightarrow> [Call_Wait r])))
   \<and> (fst (ensureValidating P E nodes bid sched) = waitResult (ensureValidatingGroup P E nodes bid sched)
     \<and> snd (ensureValidating P E nodes bid sched)
         = trace (ensureValidatingGroup P E nodes bid sched)
           @ (case fst (ensureValidating P E nodes bid sched) of None \<Rightarrow> [] | Some r \<Rightarrow> [Call_Wait r]))
   \<and> (fst (ensureValidating P E nodes bid sched) = Some None \<longrightarrow>
        (\<forall>i < length nodes. \<exists>k.
           GetBlockchainStatus E (clientOf nodes i) (IDString E bid) k = Inr Validating
           \<and> Call_GetBlockchainStatus (clientOf nodes i) (IDString E bid) (Inr Validating)
              \<in> set (snd (ensureValidating P E nodes bid sched))))
   \<and> (\<forall>i k e. i < length nodes \<and> workers (ensureValidatingGroup P E nodes bid sched) ! i = Sleeping k
         \<and> GetBlockchainStatus E (clientOf nodes i) (IDString E bid) k = Inl e \<longrightarrow>
         snd (ensureValidating P E nodes bid (sched @ [Fire i]))
            = snd (ensureValidating P E nodes bid sched)
              @ [Call_GetBlockchainStatus (clientOf nodes i) (IDString E bid) (Inl e)]
              @ (case fst (ensureValidating P E nodes bid (sched @ [Fire i])) of
                   None \<Rightarrow> [] | Some r \<Rightarrow> [Call_Wait r])
         \<and> workers (ensureValidatingGroup P E nodes bid (sched @ [Fire i])) ! i
             = Returned (Some (Wrap ''error querying blockchain status'' e)))"
proof -
  let ?n = "length nodes"
  let ?bb = "ensureBootstrappedWorker E nodes bid"
  let ?bv = "ensureValidatingWorker P E nodes bid"
  let ?ib = "\<lambda>u::unit. apiRetryFreq P"
  let ?iv = "\<lambda>t::duration. t"
  let ?GB = "ensureBootstrappedGroup P E nodes bid"
  let ?GV = "ensureValidatingGroup P E nodes bid"
  have lenB: "\<And>s. length (workers (?GB s)) = ?n" by (simp add: ensureBootstrappedGroup_def)
  have lenV: "\<And>s. length (workers (?GV s)) = ?n" by (simp add: ensureValidatingGroup_def)
  have appB: "\<And>s t. ?GB (s @ t) = run ?ib ?bb t (?GB s)"
    by (simp add: ensureBootstrappedGroup_def final_append)
  have appV: "\<And>s t. ?GV (s @ t) = run ?iv ?bv t (?GV s)"
    by (simp add: ensureValidatingGroup_def final_append)
  have errB: "\<And>s e. err (?GB s) = Some e \<Longrightarrow> ParentDone e \<in> set s"
    using provenance [of ?ib ?bb ?n "()"] ensureBootstrappedWorker_no_error
    unfolding ensureBootstrappedGroup_def by blast
  have p1: "\<forall>e. fst (ensureBootstrapped P E nodes bid sched) = Some (Some e) \<longrightarrow> ParentDone e \<in> set sched"
  proof (intro allI impI)
    fix e assume "fst (ensureBootstrapped P E nodes bid sched) = Some (Some e)"
    then have "err (?GB sched) = Some e"
      by (auto simp: ensureBootstrapped_unfold waitResult_def split: if_splits)
    then show "ParentDone e \<in> set sched" by (rule errB)
  qed
  have p2: "\<forall>i k e. i < ?n \<and> workers (?GB sched) ! i = Sleeping k
         \<and> IsBootstrapped E (clientOf nodes i) (IDString E bid) k = (False, Some e) \<longrightarrow>
         workers (?GB (sched @ [Fire i])) ! i = Ready (Suc k)
         \<and> err (?GB (sched @ [Fire i])) = err (?GB sched)"
  proof (intro allI impI)
    fix i k e
    assume h: "i < ?n \<and> workers (?GB sched) ! i = Sleeping k
         \<and> IsBootstrapped E (clientOf nodes i) (IDString E bid) k = (False, Some e)"
    then have c: "fst (snd (?bb i k (shared (?GB sched)))) = Continue"
      by (simp add: ensureBootstrappedWorker_out)
    have il: "i < length (workers (?GB sched))" using h lenB by simp
    have sl: "workers (?GB sched) ! i = Sleeping k" using h by simp
    from fire_continue [where body = ?bb and iv = ?ib and g = "?GB sched" and i = i and k = k, OF il sl c]
    show "workers (?GB (sched @ [Fire i])) ! i = Ready (Suc k)
         \<and> err (?GB (sched @ [Fire i])) = err (?GB sched)"
      by (simp add: appB)
  qed
  have p3: "(\<forall>c. ParentDone c \<notin> set sched)
         \<and> (\<forall>i < ?n. \<exists>t \<le> B. fst (IsBootstrapped E (clientOf nodes i) (IDString E bid) t)) \<longrightarrow>
         fst (ensureBootstrapped P E nodes bid (sched @ allTurns (Suc B) ?n)) = Some None"
  proof
    assume h: "(\<forall>c. ParentDone c \<notin> set sched)
         \<and> (\<forall>i < ?n. \<exists>t \<le> B. fst (IsBootstrapped E (clientOf nodes i) (IDString E bid) t))"
    then have ex: "\<forall>i < ?n. \<exists>t \<le> B. \<forall>s. fst (snd (?bb i t s)) \<noteq> Continue"
      by (auto simp add: ensureBootstrappedWorker_out)
    have w: "waitResult (?GB (sched @ allTurns (Suc B) ?n)) = Some (err (?GB (sched @ allTurns (Suc B) ?n)))"
      unfolding ensureBootstrappedGroup_def using ex by (rule allTurns_returns)
    have np: "\<And>c. ParentDone c \<notin> set (sched @ allTurns (Suc B) ?n)"
      using h by (auto simp: allTurns_def turns_def)
    have "err (?GB (sched @ allTurns (Suc B) ?n)) = None"
    proof (cases "err (?GB (sched @ allTurns (Suc B) ?n))")
      case (Some e)
      then have "ParentDone e \<in> set (sched @ allTurns (Suc B) ?n)" by (rule errB)
      with np show ?thesis by blast
    qed simp
    with w show "fst (ensureBootstrapped P E nodes bid (sched @ allTurns (Suc B) ?n)) = Some None"
      by (simp add: ensureBootstrapped_unfold)
  qed
  have p4: "\<forall>i k e. i < ?n \<and> workers (?GV sched) ! i = Sleeping k \<and> err (?GV sched) = None
         \<and> GetBlockchainStatus E (clientOf nodes i) (IDString E bid) k = Inl e \<longrightarrow>
         err (?GV (sched @ [Fire i])) = Some (Wrap ''error querying blockchain status'' e)
         \<and> ctxErr (?GV (sched @ [Fire i])) \<noteq> None
         \<and> (\<forall>more. fst (ensureValidating P E nodes bid (sched @ [Fire i] @ more)) = None
               \<or> fst (ensureValidating P E nodes bid (sched @ [Fire i] @ more))
                   = Some (Some (Wrap ''error querying blockchain status'' e)))
         \<and> fst (ensureValidating P E nodes bid (sched @ [Fire i] @ drain ?n))
             = Some (Some (Wrap ''error querying blockchain status'' e))"
  proof (intro allI impI)
    fix i k e
    assume h: "i < ?n \<and> workers (?GV sched) ! i = Sleeping k \<and> err (?GV sched) = None
         \<and> GetBlockchainStatus E (clientOf nodes i) (IDString E bid) k = Inl e"
    let ?w = "Wrap ''error querying blockchain status'' e"
    let ?g1 = "?GV (sched @ [Fire i])"
    have il: "i < length (workers (?GV sched))" using h lenV by simp
    have x: "fst (snd (?bv i k (shared (?GV sched)))) = Exit (Some ?w)"
      using h by (simp add: ensureValidatingWorker_fails)
    have sl: "workers (?GV sched) ! i = Sleeping k" and en: "err (?GV sched) = None" using h by simp_all
    have e1: "err ?g1 = Some ?w"
      using fire_exit_err [where body = ?bv and iv = ?iv and g = "?GV sched" and i = i and k = k,
          OF il sl x en]
      by (simp add: appV)
    have "errInv ?g1" by (simp add: ensureValidatingGroup_def errInv_final)
    with e1 have c1: "ctxErr ?g1 \<noteq> None" unfolding errInv_def by simp
    have more: "\<And>more. err (?GV (sched @ [Fire i] @ more)) = Some ?w"
    proof -
      fix more
      have "?GV (sched @ [Fire i] @ more) = run ?iv ?bv more ?g1"
        using appV [of "sched @ [Fire i]" more] by simp
      with e1 show "err (?GV (sched @ [Fire i] @ more)) = Some ?w" by (simp add: run_err)
    qed
    have m: "\<forall>more. fst (ensureValidating P E nodes bid (sched @ [Fire i] @ more)) = None
               \<or> fst (ensureValidating P E nodes bid (sched @ [Fire i] @ more)) = Some (Some ?w)"
      using more by (simp add: ensureValidating_unfold waitResult_def)
    have "waitResult (run ?iv ?bv (drain (length (workers ?g1))) ?g1) \<noteq> None"
      using c1 by (rule drain_returns)
    moreover have "run ?iv ?bv (drain (length (workers ?g1))) ?g1 = ?GV (sched @ [Fire i] @ drain ?n)"
      using appV [of "sched @ [Fire i]" "drain ?n"] lenV by simp
    ultimately have "fst (ensureValidating P E nodes bid (sched @ [Fire i] @ drain ?n)) \<noteq> None"
      by (simp add: ensureValidating_unfold)
    with m [THEN spec, of "drain ?n"]
    have d: "fst (ensureValidating P E nodes bid (sched @ [Fire i] @ drain ?n)) = Some (Some ?w)"
      by auto
    from e1 c1 m d show "err ?g1 = Some ?w \<and> ctxErr ?g1 \<noteq> None
         \<and> (\<forall>more. fst (ensureValidating P E nodes bid (sched @ [Fire i] @ more)) = None
               \<or> fst (ensureValidating P E nodes bid (sched @ [Fire i] @ more)) = Some (Some ?w))
         \<and> fst (ensureValidating P E nodes bid (sched @ [Fire i] @ drain ?n)) = Some (Some ?w)"
      by (intro conjI)
  qed
  note q1 = ensureBootstrapped_tied [of P E nodes bid sched]
  have q2: "fst (ensureBootstrapped P E nodes bid sched) = Some None \<longrightarrow>
        (\<forall>i < ?n. \<exists>k. fst (IsBootstrapped E (clientOf nodes i) (IDString E bid) k)
           \<and> Call_IsBootstrapped (clientOf nodes i) (IDString E bid)
                (IsBootstrapped E (clientOf nodes i) (IDString E bid) k)
              \<in> set (snd (ensureBootstrapped P E nodes bid sched)))"
  proof (intro impI allI)
    fix i assume a: "fst (ensureBootstrapped P E nodes bid sched) = Some None" and i: "i < ?n"
    from a i have "workers (?GB sched) ! i = Returned None"
      by (simp add: ensureBootstrapped_success)
    with i show "\<exists>k. fst (IsBootstrapped E (clientOf nodes i) (IDString E bid) k)
           \<and> Call_IsBootstrapped (clientOf nodes i) (IDString E bid)
                (IsBootstrapped E (clientOf nodes i) (IDString E bid) k)
              \<in> set (snd (ensureBootstrapped P E nodes bid sched))"
      by (rule ensureBootstrapped_observed)
  qed
  have q3: "(\<exists>i < ?n. \<forall>k. \<not> fst (IsBootstrapped E (clientOf nodes i) (IDString E bid) k)) \<longrightarrow>
        fst (ensureBootstrapped P E nodes bid sched) \<noteq> Some None
        \<and> ((\<forall>c. ParentDone c \<notin> set sched) \<longrightarrow> fst (ensureBootstrapped P E nodes bid sched) = None)"
  proof
    assume h: "\<exists>i < ?n. \<forall>k. \<not> fst (IsBootstrapped E (clientOf nodes i) (IDString E bid) k)"
    then have a: "fst (ensureBootstrapped P E nodes bid sched) \<noteq> Some None"
      by (rule ensureBootstrapped_never)
    have b: "(\<forall>c. ParentDone c \<notin> set sched) \<longrightarrow> fst (ensureBootstrapped P E nodes bid sched) = None"
    proof
      assume np: "\<forall>c. ParentDone c \<notin> set sched"
      show "fst (ensureBootstrapped P E nodes bid sched) = None"
      proof (cases "fst (ensureBootstrapped P E nodes bid sched)")
        case (Some r)
        show ?thesis
        proof (cases r)
          case None with Some a show ?thesis by simp
        next
          case (Some e)
          with \<open>fst (ensureBootstrapped P E nodes bid sched) = Some r\<close> p1 np show ?thesis by blast
        qed
      qed simp
    qed
    from a b show "fst (ensureBootstrapped P E nodes bid sched) \<noteq> Some None
        \<and> ((\<forall>c. ParentDone c \<notin> set sched) \<longrightarrow> fst (ensureBootstrapped P E nodes bid sched) = None)"
      by (intro conjI)
  qed
  have q4: "\<forall>i k e. i < ?n \<and> workers (?GB sched) ! i = Sleeping k
         \<and> IsBootstrapped E (clientOf nodes i) (IDString E bid) k = (False, Some e) \<longrightarrow>
         (\<exists>l. snd (ensureBootstrapped P E nodes bid (sched @ [Fire i, Enter i, Fire i]))
            = snd (ensureBootstrapped P E nodes bid sched)
              @ [Call_IsBootstrapped (clientOf nodes i) (IDString E bid) (False, Some e),
                 Log_Debug ''waiting for %s to bootstrap %s''
                   [ArgStr (PrefixedString (GetNodeID (snd (nodes ! i))) NodeIDPrefix),
                    ArgStr (IDString E bid)],
                 Call_TimeAfter (apiRetryFreq P),
                 Call_IsBootstrapped (clientOf nodes i) (IDString E bid)
                   (IsBootstrapped E (clientOf nodes i) (IDString E bid) (Suc k)),
                 l]
              @ (case fst (ensureBootstrapped P E nodes bid (sched @ [Fire i, Enter i, Fire i])) of
                   None \<Rightarrow> [] | Some r \<Rightarrow> [Call_Wait r]))"
  proof (intro allI impI)
    fix i k e
    assume h: "i < ?n \<and> workers (?GB sched) ! i = Sleeping k
         \<and> IsBootstrapped E (clientOf nodes i) (IDString E bid) k = (False, Some e)"
    let ?s' = "sched @ [Fire i, Enter i, Fire i]"
    have il: "i < length (workers (?GB sched))" using h lenB by simp
    have "waitResult (?GB sched) = None" using il h by (simp add: sleeping_not_returned)
    then have s0: "snd (ensureBootstrapped P E nodes bid sched) = trace (?GB sched)"
      using q1 by simp
    have f: "\<not> fst (IsBootstrapped E (clientOf nodes i) (IDString E bid) k)" using h by simp
    have r: "trace (?GB ?s') = trace (?GB sched) @ fst (?bb i k ()) @ [Call_TimeAfter (apiRetryFreq P)]
       @ fst (?bb i (Suc k) ())"
      using h f by (simp add: ensureBootstrapped_retry)
    have w1: "fst (?bb i k ())
        = [Call_IsBootstrapped (clientOf nodes i) (IDString E bid) (False, Some e),
           Log_Debug ''waiting for %s to bootstrap %s''
             [ArgStr (PrefixedString (GetNodeID (snd (nodes ! i))) NodeIDPrefix),
              ArgStr (IDString E bid)] ]"
      using h by (simp add: ensureBootstrappedWorker_def clientOf_def Let_def)
    from ensureBootstrappedWorker_calls [of E nodes bid i "Suc k" "()"]
    obtain l where w2: "fst (?bb i (Suc k) ())
        = [Call_IsBootstrapped (clientOf nodes i) (IDString E bid)
             (IsBootstrapped E (clientOf nodes i) (IDString E bid) (Suc k)), l]" by blast
    have "snd (ensureBootstrapped P E nodes bid ?s')
        = trace (?GB ?s') @ (case fst (ensureBootstrapped P E nodes bid ?s') of
                   None \<Rightarrow> [] | Some r \<Rightarrow> [Call_Wait r])"
      using ensureBootstrapped_tied [of P E nodes bid ?s'] by simp
    with r w1 w2 s0 show "\<exists>l. snd (ensureBootstrapped P E nodes bid ?s')
            = snd (ensureBootstrapped P E nodes bid sched)
              @ [Call_IsBootstrapped (clientOf nodes i) (IDString E bid) (False, Some e),
                 Log_Debug ''waiting for %s to bootstrap %s''
                   [ArgStr (PrefixedString (GetNodeID (snd (nodes ! i))) NodeIDPrefix),
                    ArgStr (IDString E bid)],
                 Call_TimeAfter (apiRetryFreq P),
                 Call_IsBootstrapped (clientOf nodes i) (IDString E bid)
                   (IsBootstrapped E (clientOf nodes i) (IDString E bid) (Suc k)),
                 l]
              @ (case fst (ensureBootstrapped P E nodes bid ?s') of
                   None \<Rightarrow> [] | Some r \<Rightarrow> [Call_Wait r])"
      by simp
  qed
  note q5 = ensureValidating_tied [of P E nodes bid sched]
  have q6: "fst (ensureValidating P E nodes bid sched) = Some None \<longrightarrow>
        (\<forall>i < ?n. \<exists>k.
           GetBlockchainStatus E (clientOf nodes i) (IDString E bid) k = Inr Validating
           \<and> Call_GetBlockchainStatus (clientOf nodes i) (IDString E bid) (Inr Validating)
              \<in> set (snd (ensureValidating P E nodes bid sched)))"
  proof (intro impI allI)
    fix i assume a: "fst (ensureValidating P E nodes bid sched) = Some None" and i: "i < ?n"
    from a i have "workers (?GV sched) ! i = Returned None"
      by (simp add: ensureValidating_success)
    with i show "\<exists>k. GetBlockchainStatus E (clientOf nodes i) (IDString E bid) k = Inr Validating
           \<and> Call_GetBlockchainStatus (clientOf nodes i) (IDString E bid) (Inr Validating)
              \<in> set (snd (ensureValidating P E nodes bid sched))"
      by (rule ensureValidating_observed)
  qed
  have q7: "\<forall>i k e. i < ?n \<and> workers (?GV sched) ! i = Sleeping k
         \<and> GetBlockchainStatus E (clientOf nodes i) (IDString E bid) k = Inl e \<longrightarrow>
         snd (ensureValidating P E nodes bid (sched @ [Fire i]))
            = snd (ensureValidating P E nodes bid sched)
              @ [Call_GetBlockchainStatus (clientOf nodes i) (IDString E bid) (Inl e)]
              @ (case fst (ensureValidating P E nodes bid (sched @ [Fire i])) of
                   None \<Rightarrow> [] | Some r \<Rightarrow> [Call_Wait r])
         \<and> workers (?GV (sched @ [Fire i])) ! i
             = Returned (Some (Wrap ''error querying blockchain status'' e))"
  proof (intro allI impI)
    fix i k e
    assume h: "i < ?n \<and> workers (?GV sched) ! i = Sleeping k
         \<and> GetBlockchainStatus E (clientOf nodes i) (IDString E bid) k = Inl e"
    have il: "i < length (workers (?GV sched))" using h lenV by simp
    have "waitResult (?GV sched) = None" using il h by (simp add: sleeping_not_returned)
    then have s0: "snd (ensureValidating P E nodes bid sched) = trace (?GV sched)"
      using q5 by simp
    have fq: "trace (?GV (sched @ [Fire i]))
        = trace (?GV sched) @ [Call_GetBlockchainStatus (clientOf nodes i) (IDString E bid) (Inl e)]
      \<and> workers (?GV (sched @ [Fire i])) ! i
        = Returned (Some (Wrap ''error querying blockchain status'' e))"
      using h by (simp add: ensureValidating_failed_query)
    have "snd (ensureValidating P E nodes bid (sched @ [Fire i]))
        = trace (?GV (sched @ [Fire i]))
          @ (case fst (ensureValidating P E nodes bid (sched @ [Fire i])) of
                   None \<Rightarrow> [] | Some r \<Rightarrow> [Call_Wait r])"
      using ensureValidating_tied [of P E nodes bid "sched @ [Fire i]"] by simp
    with fq s0 show "snd (ensureValidating P E nodes bid (sched @ [Fire i]))
            = snd (ensureValidating P E nodes bid sched)
              @ [Call_GetBlockchainStatus (clientOf nodes i) (IDString E bid) (Inl e)]
              @ (case fst (ensureValidating P E nodes bid (sched @ [Fire i])) of
                   None \<Rightarrow> [] | Some r \<Rightarrow> [Call_Wait r])
         \<and> workers (?GV (sched @ [Fire i])) ! i
             = Returned (Some (Wrap ''error querying blockchain status'' e))"
      by simp
  qed
  note q1a = q1 [THEN conjunct1] and q1b = q1 [THEN conjunct2]
  note q5a = q5 [THEN conjunct1] and q5b = q5 [THEN conjunct2]
  from p1 p2 p3 p4 q1a q1b q2 q3 q4 q5a q5b q6 q7 show ?thesis by (intro conjI)
qed

lemmas finalization_eval = final_def spawn_def step.simps finish_def waitResult_def Let_def
  clientOf_def ensureBootstrappedGroup_def ensureValidatingGroup_def
  ensureBootstrappedWorker_def ensureValidatingWorker_def ensureBootstrapped_def
  ensureValidating_def groupWait_def

text \<open>
  On the example fleet: the second node fails its first two bootstrap queries and then
  reports true; the second node fails its status query. Where the second node fails every
  bootstrap query (\<open>stuckEnv\<close>), \<^verbatim>\<open>ensureBootstrapped\<close> has not returned after any number of
  iterations; shown here after two.
\<close>

theorem finalization_query_errors_witness:
  "fst (ensureBootstrapped exampleParams flakyEnv exampleNodes (MkID 3)
          [ParentDone ContextCanceled, Enter 0, Observe 0, Enter 1, Observe 1])
     = Some (Some ContextCanceled)
   \<and> IsBootstrapped flakyEnv (Client 2) (IDString flakyEnv (MkID 3)) 0
       = (False, Some (Msg ''connection refused''))
   \<and> workers (ensureBootstrappedGroup exampleParams flakyEnv exampleNodes (MkID 3) ([Enter 1] @ [Fire 1])) ! 1
       = Ready (Suc 0)
   \<and> err (ensureBootstrappedGroup exampleParams flakyEnv exampleNodes (MkID 3) ([Enter 1] @ [Fire 1])) = None
   \<and> fst (ensureBootstrapped exampleParams flakyEnv exampleNodes (MkID 3)
            ([Enter 1, Fire 1] @ allTurns (Suc 2) (length exampleNodes))) = Some None
   \<and> GetBlockchainStatus brokenStatusEnv (Client 2) (IDString brokenStatusEnv (MkID 3)) 0
       = Inl (Msg ''connection refused'')
   \<and> fst (ensureValidating exampleParams brokenStatusEnv exampleNodes (MkID 3)
            ([Enter 0, Enter 1] @ [Fire 1] @ drain (length exampleNodes)))
       = Some (Some (Wrap ''error querying blockchain status'' (Msg ''connection refused'')))
   \<and> Call_IsBootstrapped (Client 2) ''chain3'' (True, None)
       \<in> set (snd (ensureBootstrapped exampleParams flakyEnv exampleNodes (MkID 3)
                     ([Enter 1, Fire 1] @ allTurns (Suc 2) (length exampleNodes))))
   \<and> fst (ensureBootstrapped exampleParams stuckEnv exampleNodes (MkID 3)
            [Enter 0, Fire 0, Enter 1, Fire 1, Enter 1, Fire 1]) = None
   \<and> (\<exists>l. snd (ensureBootstrapped exampleParams flakyEnv exampleNodes (MkID 3)
                 ([Enter 1] @ [Fire 1, Enter 1, Fire 1]))
          = [Call_TimeAfter 1000000000,
             Call_IsBootstrapped (Client 2) ''chain3'' (False, Some (Msg ''connection refused'')),
             Log_Debug ''waiting for %s to bootstrap %s'' [ArgStr ''NodeID-B'', ArgStr ''chain3''],
             Call_TimeAfter 1000000000,
             Call_IsBootstrapped (Client 2) ''chain3'' (False, Some (Msg ''connection refused'')),
             l])
   \<and> Call_GetBlockchainStatus (Client 1) ''chain3'' (Inr Validating)
       \<in> set (snd (ensureValidating exampleParams exampleEnv exampleNodes (MkID 3)
                     [Enter 0, Enter 1, Fire 1, Fire 0]))
   \<and> snd (ensureValidating exampleParams brokenStatusEnv exampleNodes (MkID 3)
            ([Enter 0, Enter 1] @ [Fire 1]))
       = [Call_TimeAfter 10000000000, Call_TimeAfter 10000000000,
          Call_GetBlockchainStatus (Client 2) ''chain3'' (Inl (Msg ''connection refused''))]"
proof -
  let ?P = exampleParams
  let ?C = "[ParentDone ContextCanceled, Enter 0, Observe 0, Enter 1, Observe 1]"
  note T = finalization_query_errors [where P = ?P and nodes = exampleNodes and bid = "MkID 3"]
  have n: "length exampleNodes = 2" by (simp add: exampleNodes_def)
  have a1: "fst (ensureBootstrapped ?P flakyEnv exampleNodes (MkID 3) ?C) = Some (Some ContextCanceled)"
    by (simp add: example_defs finalization_eval)
  have "ParentDone ContextCanceled \<in> set ?C"
    using T [where E = flakyEnv and sched = ?C, THEN conjunct1, rule_format, of ContextCanceled] a1
    by simp
  have h2: "1 < length exampleNodes
      \<and> workers (ensureBootstrappedGroup ?P flakyEnv exampleNodes (MkID 3) [Enter 1]) ! 1 = Sleeping 0
      \<and> IsBootstrapped flakyEnv (clientOf exampleNodes 1) (IDString flakyEnv (MkID 3)) 0
          = (False, Some (Msg ''connection refused''))"
    by (simp add: example_defs finalization_eval)
  have a2: "workers (ensureBootstrappedGroup ?P flakyEnv exampleNodes (MkID 3) ([Enter 1] @ [Fire 1])) ! 1
        = Ready (Suc 0)
      \<and> err (ensureBootstrappedGroup ?P flakyEnv exampleNodes (MkID 3) ([Enter 1] @ [Fire 1]))
        = err (ensureBootstrappedGroup ?P flakyEnv exampleNodes (MkID 3) [Enter 1])"
    using T [where E = flakyEnv and sched = "[Enter 1]", THEN conjunct2, THEN conjunct1, rule_format,
        of 1 0 "Msg ''connection refused''"] h2
    by simp
  have e2: "err (ensureBootstrappedGroup ?P flakyEnv exampleNodes (MkID 3) [Enter 1]) = None"
    by (simp add: example_defs finalization_eval)
  have h3: "(\<forall>c. ParentDone c \<notin> set [Enter 1, Fire 1])
      \<and> (\<forall>i < length exampleNodes. \<exists>t \<le> 2.
            fst (IsBootstrapped flakyEnv (clientOf exampleNodes i) (IDString flakyEnv (MkID 3)) t))"
  proof -
    have "\<forall>i < length exampleNodes.
        fst (IsBootstrapped flakyEnv (clientOf exampleNodes i) (IDString flakyEnv (MkID 3)) 2)"
      by (simp add: example_defs finalization_eval All_less_Suc)
    then show ?thesis by auto
  qed
  have a3: "fst (ensureBootstrapped ?P flakyEnv exampleNodes (MkID 3)
            ([Enter 1, Fire 1] @ allTurns (Suc 2) (length exampleNodes))) = Some None"
    using T [where E = flakyEnv and sched = "[Enter 1, Fire 1]" and B = 2,
        THEN conjunct2, THEN conjunct2, THEN conjunct1] h3
    by simp
  have h4: "1 < length exampleNodes
      \<and> workers (ensureValidatingGroup ?P brokenStatusEnv exampleNodes (MkID 3) [Enter 0, Enter 1]) ! 1
          = Sleeping 0
      \<and> err (ensureValidatingGroup ?P brokenStatusEnv exampleNodes (MkID 3) [Enter 0, Enter 1]) = None
      \<and> GetBlockchainStatus brokenStatusEnv (clientOf exampleNodes 1) (IDString brokenStatusEnv (MkID 3)) 0
          = Inl (Msg ''connection refused'')"
    by (simp add: example_defs finalization_eval)
  have a4: "fst (ensureValidating ?P brokenStatusEnv exampleNodes (MkID 3)
            ([Enter 0, Enter 1] @ [Fire 1] @ drain (length exampleNodes)))
       = Some (Some (Wrap ''error querying blockchain status'' (Msg ''connection refused'')))"
    using T [where E = brokenStatusEnv and sched = "[Enter 0, Enter 1]",
        THEN conjunct2, THEN conjunct2, THEN conjunct2, THEN conjunct1, rule_format,
        of 1 0 "Msg ''connection refused''"] h4
    by simp
  have c: "clientOf exampleNodes 1 = Client 2" by (simp add: example_defs clientOf_def)
  have c0: "clientOf exampleNodes 0 = Client 1" by (simp add: example_defs clientOf_def)
  have n3: "IDString flakyEnv (MkID 3) = ''chain3''" "IDString stuckEnv (MkID 3) = ''chain3''"
    "IDString brokenStatusEnv (MkID 3) = ''chain3''" "IDString exampleEnv (MkID 3) = ''chain3''"
    by (simp_all add: example_defs stuckEnv_def)
  have l0: "0 < length exampleNodes" and l1: "1 < length exampleNodes" by (simp_all add: n)
  note a5 = T [where E = flakyEnv
        and sched = "[Enter 1, Fire 1] @ allTurns (Suc 2) (length exampleNodes)",
        THEN conjunct2, THEN conjunct2, THEN conjunct2, THEN conjunct2, THEN conjunct2, THEN conjunct1, THEN mp, OF a3, rule_format, OF l1]
  then obtain k where k: "fst (IsBootstrapped flakyEnv (clientOf exampleNodes 1) (IDString flakyEnv (MkID 3)) k)"
    and m: "Call_IsBootstrapped (clientOf exampleNodes 1) (IDString flakyEnv (MkID 3))
              (IsBootstrapped flakyEnv (clientOf exampleNodes 1) (IDString flakyEnv (MkID 3)) k)
            \<in> set (snd (ensureBootstrapped ?P flakyEnv exampleNodes (MkID 3)
                     ([Enter 1, Fire 1] @ allTurns (Suc 2) (length exampleNodes))))"
    by blast
  from k have kk: "IsBootstrapped flakyEnv (clientOf exampleNodes 1) (IDString flakyEnv (MkID 3)) k = (True, None)"
    by (simp add: flakyEnv_def split: if_splits)
  from m [unfolded kk] have w5: "Call_IsBootstrapped (Client 2) ''chain3'' (True, None)
       \<in> set (snd (ensureBootstrapped ?P flakyEnv exampleNodes (MkID 3)
                     ([Enter 1, Fire 1] @ allTurns (Suc 2) (length exampleNodes))))"
    unfolding c n3 .
  let ?S = "[Enter 0, Fire 0, Enter 1, Fire 1, Enter 1, Fire 1]"
  have "\<forall>k. \<not> fst (IsBootstrapped stuckEnv (clientOf exampleNodes 1) (IDString stuckEnv (MkID 3)) k)"
    unfolding c by (simp add: stuckEnv_def)
  with l1 have h6: "\<exists>i < length exampleNodes.
      \<forall>k. \<not> fst (IsBootstrapped stuckEnv (clientOf exampleNodes i) (IDString stuckEnv (MkID 3)) k)"
    by blast
  have np: "\<forall>c. ParentDone c \<notin> set ?S" by simp
  note w6 = T [where E = stuckEnv and sched = ?S,
        THEN conjunct2, THEN conjunct2, THEN conjunct2, THEN conjunct2, THEN conjunct2, THEN conjunct2, THEN conjunct1, THEN mp, OF h6, THEN conjunct2, THEN mp, OF np]
  have a7: "\<exists>l. snd (ensureBootstrapped ?P flakyEnv exampleNodes (MkID 3) ([Enter 1] @ [Fire 1, Enter 1, Fire 1]))
      = snd (ensureBootstrapped ?P flakyEnv exampleNodes (MkID 3) [Enter 1])
        @ [Call_IsBootstrapped (clientOf exampleNodes 1) (IDString flakyEnv (MkID 3))
             (False, Some (Msg ''connection refused'')),
           Log_Debug ''waiting for %s to bootstrap %s''
             [ArgStr (PrefixedString (GetNodeID (snd (exampleNodes ! 1))) NodeIDPrefix),
              ArgStr (IDString flakyEnv (MkID 3))],
           Call_TimeAfter (apiRetryFreq ?P),
           Call_IsBootstrapped (clientOf exampleNodes 1) (IDString flakyEnv (MkID 3))
             (IsBootstrapped flakyEnv (clientOf exampleNodes 1) (IDString flakyEnv (MkID 3)) (Suc 0)),
           l]
        @ (case fst (ensureBootstrapped ?P flakyEnv exampleNodes (MkID 3)
                       ([Enter 1] @ [Fire 1, Enter 1, Fire 1])) of
             None \<Rightarrow> [] | Some r \<Rightarrow> [Call_Wait r])"
    by (rule T [where E = flakyEnv and sched = "[Enter 1]",
        THEN conjunct2, THEN conjunct2, THEN conjunct2, THEN conjunct2, THEN conjunct2, THEN conjunct2, THEN conjunct2, THEN conjunct1, rule_format,
        of 1 0 "Msg ''connection refused''", OF h2])
  have e7: "snd (ensureBootstrapped ?P flakyEnv exampleNodes (MkID 3) [Enter 1])
        = [Call_TimeAfter 1000000000]"
      "fst (ensureBootstrapped ?P flakyEnv exampleNodes (MkID 3) ([Enter 1] @ [Fire 1, Enter 1, Fire 1]))
        = None"
      "IsBootstrapped flakyEnv (clientOf exampleNodes 1) (IDString flakyEnv (MkID 3)) (Suc 0)
        = (False, Some (Msg ''connection refused''))"
      "PrefixedString (GetNodeID (snd (exampleNodes ! 1))) NodeIDPrefix = ''NodeID-B''"
      "apiRetryFreq ?P = 1000000000"
    by (simp_all add: example_defs finalization_eval NodeIDPrefix_def)
  from a7 [unfolded e7] have w7: "\<exists>l. snd (ensureBootstrapped ?P flakyEnv exampleNodes (MkID 3)
                 ([Enter 1] @ [Fire 1, Enter 1, Fire 1]))
          = [Call_TimeAfter 1000000000,
             Call_IsBootstrapped (Client 2) ''chain3'' (False, Some (Msg ''connection refused'')),
             Log_Debug ''waiting for %s to bootstrap %s'' [ArgStr ''NodeID-B'', ArgStr ''chain3''],
             Call_TimeAfter 1000000000,
             Call_IsBootstrapped (Client 2) ''chain3'' (False, Some (Msg ''connection refused'')),
             l]"
    unfolding c n3 by simp
  let ?V = "[Enter 0, Enter 1, Fire 1, Fire 0]"
  have h9: "fst (ensureValidating ?P exampleEnv exampleNodes (MkID 3) ?V) = Some None"
    by (simp add: example_defs finalization_eval)
  note a9 = T [where E = exampleEnv and sched = ?V,
        THEN conjunct2, THEN conjunct2, THEN conjunct2, THEN conjunct2, THEN conjunct2, THEN conjunct2, THEN conjunct2, THEN conjunct2, THEN conjunct2, THEN conjunct1, THEN mp, OF h9, rule_format, OF l0]
  then have w9: "Call_GetBlockchainStatus (Client 1) ''chain3'' (Inr Validating)
       \<in> set (snd (ensureValidating ?P exampleEnv exampleNodes (MkID 3) ?V))"
    unfolding c0 n3 by blast
  have h8: "1 < length exampleNodes
      \<and> workers (ensureValidatingGroup ?P brokenStatusEnv exampleNodes (MkID 3) [Enter 0, Enter 1]) ! 1
          = Sleeping 0
      \<and> GetBlockchainStatus brokenStatusEnv (clientOf exampleNodes 1) (IDString brokenStatusEnv (MkID 3)) 0
          = Inl (Msg ''connection refused'')"
    using h4 by simp
  note a8 = T [where E = brokenStatusEnv and sched = "[Enter 0, Enter 1]",
        THEN conjunct2, THEN conjunct2, THEN conjunct2, THEN conjunct2, THEN conjunct2, THEN conjunct2, THEN conjunct2, THEN conjunct2, THEN conjunct2, THEN conjunct2, rule_format,
        of 1 0 "Msg ''connection refused''", OF h8, THEN conjunct1]
  have e8: "snd (ensureValidating ?P brokenStatusEnv exampleNodes (MkID 3) [Enter 0, Enter 1])
        = [Call_TimeAfter 10000000000, Call_TimeAfter 10000000000]"
      "fst (ensureValidating ?P brokenStatusEnv exampleNodes (MkID 3) ([Enter 0, Enter 1] @ [Fire 1]))
        = None"
    by (simp_all add: example_defs finalization_eval)
  from a8 [unfolded e8] have w8: "snd (ensureValidating ?P brokenStatusEnv exampleNodes (MkID 3)
            ([Enter 0, Enter 1] @ [Fire 1]))
       = [Call_TimeAfter 10000000000, Call_TimeAfter 10000000000,
          Call_GetBlockchainStatus (Client 2) ''chain3'' (Inl (Msg ''connection refused''))]"
    unfolding c n3 by simp
  have old: "fst (ensureBootstrapped ?P flakyEnv exampleNodes (MkID 3) ?C) = Some (Some ContextCanceled)
   \<and> IsBootstrapped flakyEnv (Client 2) (IDString flakyEnv (MkID 3)) 0
       = (False, Some (Msg ''connection refused''))
   \<and> workers (ensureBootstrappedGroup ?P flakyEnv exampleNodes (MkID 3) ([Enter 1] @ [Fire 1])) ! 1
       = Ready (Suc 0)
   \<and> err (ensureBootstrappedGroup ?P flakyEnv exampleNodes (MkID 3) ([Enter 1] @ [Fire 1])) = None
   \<and> fst (ensureBootstrapped ?P flakyEnv exampleNodes (MkID 3)
            ([Enter 1, Fire 1] @ allTurns (Suc 2) (length exampleNodes))) = Some None
   \<and> GetBlockchainStatus brokenStatusEnv (Client 2) (IDString brokenStatusEnv (MkID 3)) 0
       = Inl (Msg ''connection refused'')
   \<and> fst (ensureValidating ?P brokenStatusEnv exampleNodes (MkID 3)
            ([Enter 0, Enter 1] @ [Fire 1] @ drain (length exampleNodes)))
       = Some (Some (Wrap ''error querying blockchain status'' (Msg ''connection refused'')))"
    using a1 h2 a2 e2 a3 h4 a4 c by simp
  from old w5 w6 w7 w9 w8 show ?thesis by (simp only: simp_thms)
qed
















section \<open>Properties of \<^verbatim>\<open>createBlockchain\<close>\<close>

lemma awaitBlockchainTx_calls:
  "q \<in> set (snd (awaitBlockchainTx P E a txID k sels)) \<Longrightarrow>
     q = Call_TimeAfter (apiRetryFreq P)
     \<or> (\<exists>j. q = Call_GetTxStatus (txPChainClient a) txID True (GetTxStatus E (txPChainClient a) txID True j))
     \<or> q = Log_Info ''create blockchain tx (%s) accepted'' [ArgID txID]
     \<or> q = Log_Debug ''waiting for create blockchain tx (%s) to be accepted'' [ArgID txID]"
proof (induction P E a txID k sels rule: awaitBlockchainTx.induct)
  case (1 P E a txID k)
  then show ?case by simp
next
  case (2 P E a txID k e sels)
  then show ?case by simp
next
  case (3 P E a txID k sels)
  show ?case
  proof (cases "GetTxStatus E (txPChainClient a) txID True k")
    case (Inl e)
    with "3.prems" have "q = Call_TimeAfter (apiRetryFreq P)
        \<or> q = Call_GetTxStatus (txPChainClient a) txID True (GetTxStatus E (txPChainClient a) txID True k)"
      by (auto simp: Let_def)
    then show ?thesis by blast
  next
    case (Inr status)
    show ?thesis
    proof (cases "status = Committed")
      case True
      with "3.prems" Inr have "q = Call_TimeAfter (apiRetryFreq P)
          \<or> q = Call_GetTxStatus (txPChainClient a) txID True (GetTxStatus E (txPChainClient a) txID True k)
          \<or> q = Log_Info ''create blockchain tx (%s) accepted'' [ArgID txID]"
        by (auto simp: Let_def)
      then show ?thesis by blast
    next
      case False
      obtain res t where r: "awaitBlockchainTx P E a txID (Suc k) sels = (res, t)"
        by (cases "awaitBlockchainTx P E a txID (Suc k) sels") auto
      from "3.prems" Inr False r have
        "q = Call_TimeAfter (apiRetryFreq P)
          \<or> q = Call_GetTxStatus (txPChainClient a) txID True (GetTxStatus E (txPChainClient a) txID True k)
          \<or> q = Log_Debug ''waiting for create blockchain tx (%s) to be accepted'' [ArgID txID]
          \<or> q \<in> set (snd (awaitBlockchainTx P E a txID (Suc k) sels))"
        by (auto simp: Let_def)
      with "3.IH" [OF refl refl Inr False] show ?thesis by blast
    qed
  qed
qed

lemma awaitBlockchainTx_pending:
  "\<forall>j < n. \<exists>st. GetTxStatus E (txPChainClient a) txID True (k + j) = Inr st \<and> st \<noteq> Committed \<Longrightarrow>
     fst (awaitBlockchainTx P E a txID k (replicate n SelTimer)) = None
     \<and> length (filter isGetTxStatus (snd (awaitBlockchainTx P E a txID k (replicate n SelTimer)))) = n"
proof (induction n arbitrary: k)
  case 0
  then show ?case by simp
next
  case (Suc n)
  from Suc.prems obtain st where st: "GetTxStatus E (txPChainClient a) txID True k = Inr st" "st \<noteq> Committed"
    by force
  have "\<forall>j < n. \<exists>st. GetTxStatus E (txPChainClient a) txID True (Suc k + j) = Inr st \<and> st \<noteq> Committed"
    using Suc.prems by (metis Suc_less_eq add_Suc_right add_Suc)
  from Suc.IH [OF this] st show ?case
    by (auto simp: Let_def split: prod.splits)
qed

lemma awaitBlockchainTx_result:
  "fst (awaitBlockchainTx P E a txID k sels) = Some r \<Longrightarrow>
     r = Inr txID \<or> (\<exists>e. r = Inl e \<and> (SelDone e \<in> set sels
        \<or> (\<exists>j. GetTxStatus E (txPChainClient a) txID True j = Inl e)))"
proof (induction P E a txID k sels rule: awaitBlockchainTx.induct)
  case (1 P E a txID k)
  then show ?case by simp
next
  case (2 P E a txID k e sels)
  then show ?case by auto
next
  case (3 P E a txID k sels)
  show ?case
  proof (cases "GetTxStatus E (txPChainClient a) txID True k")
    case (Inl e)
    with 3 show ?thesis by (auto simp: Let_def)
  next
    case (Inr status)
    show ?thesis
    proof (cases "status = Committed")
      case True
      with 3 Inr show ?thesis by (auto simp: Let_def)
    next
      case False
      from "3.prems" Inr False have "fst (awaitBlockchainTx P E a txID (Suc k) sels) = Some r"
        by (auto simp: Let_def split: prod.splits)
      from "3.IH" [OF refl refl Inr False this] show ?thesis by auto
    qed
  qed
qed

lemma createBlockchain_read_error:
  "ReadFile E (Genesis vm) = Inl e \<Longrightarrow>
     createBlockchain P E a vm sels =
       (Some (Inl (Wrap (''could not read genesis file ('' @ Genesis vm @ '')'') e)),
        [Call_ReadFile (Genesis vm) (Inl e)])"
  by (simp add: createBlockchain_def)

lemma createBlockchain_submit_error:
  "ReadFile E (Genesis vm) = Inr genesis \<Longrightarrow> createChainTx E a vm genesis = Inl e \<Longrightarrow>
     createBlockchain P E a vm sels =
       (Some (Inl (Wrap ''could not create blockchain'' e)),
        [Call_ReadFile (Genesis vm) (Inr genesis), createChainCall E a vm genesis])"
  by (simp add: createBlockchain_def createChainTx_def createChainCall_def)

lemma createBlockchain_submitted:
  "ReadFile E (Genesis vm) = Inr genesis \<Longrightarrow> createChainTx E a vm genesis = Inr txID \<Longrightarrow>
     createBlockchain P E a vm sels =
       (fst (awaitBlockchainTx P E a txID 0 sels),
        Call_ReadFile (Genesis vm) (Inr genesis) # createChainCall E a vm genesis
          # snd (awaitBlockchainTx P E a txID 0 sels))"
  by (simp add: createBlockchain_def createChainTx_def createChainCall_def split: prod.splits)

lemma awaitBlockchainTx_entry:
  assumes "q \<in> set (snd (awaitBlockchainTx P E a txID k sels))"
  shows "\<not> isCreateBlockchain q"
    and "callClient q = None \<or> callClient q = Some (txPChainClient a)"
    and "q = Call_TimeAfter d \<Longrightarrow> d = apiRetryFreq P"
    and "q = Call_GetTxStatus c t b r \<Longrightarrow> t = txID"
  using awaitBlockchainTx_calls [OF assms] by (elim disjE exE; simp)+

lemma createBlockchain_trace:
  assumes "ReadFile E (Genesis vm) = Inr genesis"
  obtains t where
    "snd (createBlockchain P E a vm sels)
       = Call_ReadFile (Genesis vm) (Inr genesis) # createChainCall E a vm genesis # t"
    and "\<And>q. q \<in> set t \<Longrightarrow> \<not> isCreateBlockchain q"
    and "\<And>q. q \<in> set t \<Longrightarrow> callClient q = None \<or> callClient q = Some (txPChainClient a)"
    and "\<And>q d. q \<in> set t \<Longrightarrow> q = Call_TimeAfter d \<Longrightarrow> d = apiRetryFreq P"
    and "\<And>q c t' b r. q \<in> set t \<Longrightarrow> q = Call_GetTxStatus c t' b r \<Longrightarrow>
           createChainTx E a vm genesis = Inr t'"
proof (cases "createChainTx E a vm genesis")
  case (Inl e)
  have "snd (createBlockchain P E a vm sels)
       = Call_ReadFile (Genesis vm) (Inr genesis) # createChainCall E a vm genesis # []"
    using assms Inl by (simp add: createBlockchain_submit_error)
  then show ?thesis by (rule that) simp_all
next
  case (Inr txID)
  let ?t = "snd (awaitBlockchainTx P E a txID 0 sels)"
  have "snd (createBlockchain P E a vm sels)
       = Call_ReadFile (Genesis vm) (Inr genesis) # createChainCall E a vm genesis # ?t"
    using assms Inr by (simp add: createBlockchain_submitted)
  then show ?thesis
  proof (rule that)
    fix q assume "q \<in> set ?t"
    then show "\<not> isCreateBlockchain q" by (rule awaitBlockchainTx_entry(1))
  next
    fix q assume "q \<in> set ?t"
    then show "callClient q = None \<or> callClient q = Some (txPChainClient a)"
      by (rule awaitBlockchainTx_entry(2))
  next
    fix q d assume "q \<in> set ?t" "q = Call_TimeAfter d"
    then show "d = apiRetryFreq P" by (rule awaitBlockchainTx_entry(3))
  next
    fix q c t' b r assume "q \<in> set ?t" "q = Call_GetTxStatus c t' b r"
    then have "t' = txID" by (rule awaitBlockchainTx_entry(4))
    with Inr show "createChainTx E a vm genesis = Inr t'" by simp
  qed
qed

lemma createChainCall_simps [simp]:
  "isCreateBlockchain (createChainCall E a vm genesis)"
  "callClient (createChainCall E a vm genesis) = Some (txPChainClient a)"
  "createChainCall E a vm genesis \<noteq> Call_TimeAfter d"
  "createChainCall E a vm genesis \<noteq> Call_GetTxStatus c t b r"
  "\<not> isGetTxStatus (createChainCall E a vm genesis)"
  by (simp_all add: createChainCall_def)

lemma createBlockchain_once:
  assumes g: "ReadFile E (Genesis vm) = Inr genesis"
  shows "(\<exists>t. snd (createBlockchain P E a vm sels)
                = Call_ReadFile (Genesis vm) (Inr genesis) # createChainCall E a vm genesis # t
            \<and> (\<forall>q \<in> set t. \<not> isCreateBlockchain q))
        \<and> length (filter isCreateBlockchain (snd (createBlockchain P E a vm sels))) = 1
        \<and> (\<forall>c t b r. Call_GetTxStatus c t b r \<in> set (snd (createBlockchain P E a vm sels)) \<longrightarrow>
              createChainTx E a vm genesis = Inr t)"
proof -
  from createBlockchain_trace [OF g, of P a sels] obtain t where
    t: "snd (createBlockchain P E a vm sels)
          = Call_ReadFile (Genesis vm) (Inr genesis) # createChainCall E a vm genesis # t"
    and q1: "\<And>q. q \<in> set t \<Longrightarrow> \<not> isCreateBlockchain q"
    and q2: "\<And>q c t' b r. q \<in> set t \<Longrightarrow> q = Call_GetTxStatus c t' b r \<Longrightarrow>
           createChainTx E a vm genesis = Inr t'"
    by metis
  from q1 have "filter isCreateBlockchain t = []" by (simp add: filter_empty_conv)
  with t have one: "length (filter isCreateBlockchain (snd (createBlockchain P E a vm sels))) = 1"
    by simp
  have polls: "\<forall>c t b r. Call_GetTxStatus c t b r \<in> set (snd (createBlockchain P E a vm sels))
        \<longrightarrow> createChainTx E a vm genesis = Inr t"
    using q2 by (auto simp: t createChainCall_def)
  have ex: "\<exists>t. snd (createBlockchain P E a vm sels)
                = Call_ReadFile (Genesis vm) (Inr genesis) # createChainCall E a vm genesis # t
            \<and> (\<forall>q \<in> set t. \<not> isCreateBlockchain q)"
    using t q1 by blast
  from ex one polls show ?thesis by (intro conjI)
qed

lemma createBlockchain_clients:
  "\<forall>q \<in> set (snd (createBlockchain P E a vm sels)).
      (callClient q = None \<or> callClient q = Some (txPChainClient a))
      \<and> (\<forall>d. q = Call_TimeAfter d \<longrightarrow> d = apiRetryFreq P)"
proof (cases "ReadFile E (Genesis vm)")
  case (Inl e)
  then show ?thesis by (simp add: createBlockchain_read_error)
next
  case (Inr genesis)
  from createBlockchain_trace [OF Inr, of P a sels] obtain t where
    t: "snd (createBlockchain P E a vm sels)
          = Call_ReadFile (Genesis vm) (Inr genesis) # createChainCall E a vm genesis # t"
    and q3: "\<And>q. q \<in> set t \<Longrightarrow> callClient q = None \<or> callClient q = Some (txPChainClient a)"
    and q4: "\<And>q d. q \<in> set t \<Longrightarrow> q = Call_TimeAfter d \<Longrightarrow> d = apiRetryFreq P"
    by metis
  show ?thesis using q3 q4 by (auto simp: t)
qed

lemma createBlockchain_pending:
  assumes "ReadFile E (Genesis vm) = Inr genesis" "createChainTx E a vm genesis = Inr txID"
    "\<forall>k < n. \<exists>st. GetTxStatus E (txPChainClient a) txID True k = Inr st \<and> st \<noteq> Committed"
  shows "fst (createBlockchain P E a vm (replicate n SelTimer)) = None"
    and "length (filter isGetTxStatus (snd (createBlockchain P E a vm (replicate n SelTimer)))) = n"
proof -
  from assms(3) have
    "\<forall>j < n. \<exists>st. GetTxStatus E (txPChainClient a) txID True (0 + j) = Inr st \<and> st \<noteq> Committed"
    by simp
  from awaitBlockchainTx_pending [OF this, of P]
  show "fst (createBlockchain P E a vm (replicate n SelTimer)) = None"
    and "length (filter isGetTxStatus (snd (createBlockchain P E a vm (replicate n SelTimer)))) = n"
    using assms(1,2) by (simp_all add: createBlockchain_submitted)
qed

lemma createBlockchain_error:
  assumes r: "fst (createBlockchain P E a vm sels) = Some (Inl e)"
  shows "(\<exists>x. ReadFile E (Genesis vm) = Inl x)
        \<or> (\<exists>genesis x. ReadFile E (Genesis vm) = Inr genesis \<and> createChainTx E a vm genesis = Inl x)
        \<or> SelDone e \<in> set sels
        \<or> (\<exists>t j. GetTxStatus E (txPChainClient a) t True j = Inl e)"
proof (cases "ReadFile E (Genesis vm)")
  case (Inl x)
  then show ?thesis by blast
next
  case (Inr genesis)
  show ?thesis
  proof (cases "createChainTx E a vm genesis")
    case (Inl x)
    with Inr show ?thesis by blast
  next
    case txr: (Inr txID)
    with Inr r have "fst (awaitBlockchainTx P E a txID 0 sels) = Some (Inl e)"
      by (simp add: createBlockchain_submitted)
    from awaitBlockchainTx_result [OF this] show ?thesis by auto
  qed
qed

text \<open>
  Claim C7. \<^verbatim>\<open>createBlockchain\<close>, for every choice of the \<^verbatim>\<open>select\<close> branches:
  \<^item> if the genesis file cannot be read, it returns the wrapped read error and the trace
    holds the read alone: nothing was submitted;
  \<^item> otherwise the trace starts with the read and the one \<^verbatim>\<open>CreateBlockchain\<close> call, no
    other such call follows, and every status query is for the transaction that call
    returned;
  \<^item> every call made on an API client is made on the issuing node's client;
  \<^item> every timer is armed with \<^verbatim>\<open>apiRetryFreq\<close>;
  \<^item> there is no bound of its own: while the node answers anything but \<open>Committed\<close> and the
    context is not done, the loop is still running after \<open>n\<close> queries, for every \<open>n\<close>;
  \<^item> an error it returns comes from the read, the submission, the context or a status
    query.
\<close>

theorem createBlockchain_issuer_local:
  "(\<forall>e. ReadFile E (Genesis vm) = Inl e \<longrightarrow>
      createBlockchain P E a vm sels =
        (Some (Inl (Wrap (''could not read genesis file ('' @ Genesis vm @ '')'') e)),
         [Call_ReadFile (Genesis vm) (Inl e)]))
   \<and> (\<forall>genesis. ReadFile E (Genesis vm) = Inr genesis \<longrightarrow>
        (\<exists>t. snd (createBlockchain P E a vm sels)
                = Call_ReadFile (Genesis vm) (Inr genesis) # createChainCall E a vm genesis # t
            \<and> (\<forall>q \<in> set t. \<not> isCreateBlockchain q))
        \<and> length (filter isCreateBlockchain (snd (createBlockchain P E a vm sels))) = 1
        \<and> (\<forall>c t b r. Call_GetTxStatus c t b r \<in> set (snd (createBlockchain P E a vm sels)) \<longrightarrow>
              createChainTx E a vm genesis = Inr t))
   \<and> (\<forall>q \<in> set (snd (createBlockchain P E a vm sels)). \<forall>c. callClient q = Some c \<longrightarrow>
        c = txPChainClient a)
   \<and> (\<forall>d. Call_TimeAfter d \<in> set (snd (createBlockchain P E a vm sels)) \<longrightarrow> d = apiRetryFreq P)
   \<and> (\<forall>genesis txID n. ReadFile E (Genesis vm) = Inr genesis \<and> createChainTx E a vm genesis = Inr txID
        \<and> (\<forall>k < n. \<exists>st. GetTxStatus E (txPChainClient a) txID True k = Inr st \<and> st \<noteq> Committed) \<longrightarrow>
        fst (createBlockchain P E a vm (replicate n SelTimer)) = None
        \<and> length (filter isGetTxStatus (snd (createBlockchain P E a vm (replicate n SelTimer)))) = n)
   \<and> (\<forall>e. fst (createBlockchain P E a vm sels) = Some (Inl e) \<longrightarrow>
        (\<exists>x. ReadFile E (Genesis vm) = Inl x)
        \<or> (\<exists>genesis x. ReadFile E (Genesis vm) = Inr genesis \<and> createChainTx E a vm genesis = Inl x)
        \<or> SelDone e \<in> set sels
        \<or> (\<exists>t j. GetTxStatus E (txPChainClient a) t True j = Inl e))"
proof (intro conjI)
  show "\<forall>e. ReadFile E (Genesis vm) = Inl e \<longrightarrow>
      createBlockchain P E a vm sels =
        (Some (Inl (Wrap (''could not read genesis file ('' @ Genesis vm @ '')'') e)),
         [Call_ReadFile (Genesis vm) (Inl e)])"
    by (intro allI impI) (rule createBlockchain_read_error)
next
  show "\<forall>genesis. ReadFile E (Genesis vm) = Inr genesis \<longrightarrow>
        (\<exists>t. snd (createBlockchain P E a vm sels)
                = Call_ReadFile (Genesis vm) (Inr genesis) # createChainCall E a vm genesis # t
            \<and> (\<forall>q \<in> set t. \<not> isCreateBlockchain q))
        \<and> length (filter isCreateBlockchain (snd (createBlockchain P E a vm sels))) = 1
        \<and> (\<forall>c t b r. Call_GetTxStatus c t b r \<in> set (snd (createBlockchain P E a vm sels)) \<longrightarrow>
              createChainTx E a vm genesis = Inr t)"
    by (intro allI impI) (rule createBlockchain_once)
next
  show "\<forall>q \<in> set (snd (createBlockchain P E a vm sels)). \<forall>c. callClient q = Some c \<longrightarrow>
        c = txPChainClient a"
    using createBlockchain_clients [of P E a vm sels] by auto
next
  show "\<forall>d. Call_TimeAfter d \<in> set (snd (createBlockchain P E a vm sels)) \<longrightarrow> d = apiRetryFreq P"
    using createBlockchain_clients [of P E a vm sels] by auto
next
  show "\<forall>genesis txID n. ReadFile E (Genesis vm) = Inr genesis \<and> createChainTx E a vm genesis = Inr txID
        \<and> (\<forall>k < n. \<exists>st. GetTxStatus E (txPChainClient a) txID True k = Inr st \<and> st \<noteq> Committed) \<longrightarrow>
        fst (createBlockchain P E a vm (replicate n SelTimer)) = None
        \<and> length (filter isGetTxStatus (snd (createBlockchain P E a vm (replicate n SelTimer)))) = n"
  proof (intro allI impI conjI)
    fix genesis txID n
    assume h: "ReadFile E (Genesis vm) = Inr genesis \<and> createChainTx E a vm genesis = Inr txID
        \<and> (\<forall>k < n. \<exists>st. GetTxStatus E (txPChainClient a) txID True k = Inr st \<and> st \<noteq> Committed)"
    then have h1: "ReadFile E (Genesis vm) = Inr genesis" and h2: "createChainTx E a vm genesis = Inr txID"
      and h3: "\<forall>k < n. \<exists>st. GetTxStatus E (txPChainClient a) txID True k = Inr st \<and> st \<noteq> Committed"
      by simp_all
    show "fst (createBlockchain P E a vm (replicate n SelTimer)) = None"
      by (rule createBlockchain_pending(1) [OF h1 h2 h3])
    show "length (filter isGetTxStatus (snd (createBlockchain P E a vm (replicate n SelTimer)))) = n"
      by (rule createBlockchain_pending(2) [OF h1 h2 h3])
  qed
next
  show "\<forall>e. fst (createBlockchain P E a vm sels) = Some (Inl e) \<longrightarrow>
        (\<exists>x. ReadFile E (Genesis vm) = Inl x)
        \<or> (\<exists>genesis x. ReadFile E (Genesis vm) = Inr genesis \<and> createChainTx E a vm genesis = Inl x)
        \<or> SelDone e \<in> set sels
        \<or> (\<exists>t j. GetTxStatus E (txPChainClient a) t True j = Inl e)"
    by (intro allI impI) (rule createBlockchain_error)
qed

lemmas chain_eval = createBlockchain_def createChainTx_def createChainCall_def Let_def

text \<open>
  On the example fleet: the genesis file is missing; the transaction is committed at the
  first query; the issuing node stays in \<open>Processing\<close>; the context is done.
\<close>

theorem createBlockchain_issuer_local_witness:
  "ReadFile noGenesisEnv (Genesis exampleVM) = Inl (Msg ''no such file'')
   \<and> createBlockchain exampleParams noGenesisEnv exampleArgs exampleVM [SelTimer] =
        (Some (Inl (Wrap (''could not read genesis file ('' @ Genesis exampleVM @ '')'')
           (Msg ''no such file''))),
         [Call_ReadFile (Genesis exampleVM) (Inl (Msg ''no such file''))])
   \<and> ReadFile exampleEnv (Genesis exampleVM) = Inr []
   \<and> createChainTx exampleEnv exampleArgs exampleVM [] = Inr (MkID 3)
   \<and> length (filter isCreateBlockchain
        (snd (createBlockchain exampleParams exampleEnv exampleArgs exampleVM [SelTimer]))) = 1
   \<and> Call_GetTxStatus (Client 1) (MkID 3) True (Inr Committed)
        \<in> set (snd (createBlockchain exampleParams exampleEnv exampleArgs exampleVM [SelTimer]))
   \<and> Call_TimeAfter 1000000000
        \<in> set (snd (createBlockchain exampleParams exampleEnv exampleArgs exampleVM [SelTimer]))
   \<and> fst (createBlockchain exampleParams pendingEnv
        (exampleArgs\<lparr>txPChainClient := Client 2\<rparr>) exampleVM (replicate 5 SelTimer)) = None
   \<and> length (filter isGetTxStatus (snd (createBlockchain exampleParams pendingEnv
        (exampleArgs\<lparr>txPChainClient := Client 2\<rparr>) exampleVM (replicate 5 SelTimer)))) = 5
   \<and> fst (createBlockchain exampleParams exampleEnv exampleArgs exampleVM [SelDone ContextCanceled])
        = Some (Inl ContextCanceled)"
proof -
  let ?P = exampleParams
  let ?a2 = "exampleArgs\<lparr>txPChainClient := Client 2\<rparr>"
  note N = createBlockchain_issuer_local [where P = ?P and E = noGenesisEnv and a = exampleArgs
      and vm = exampleVM and sels = "[SelTimer]"]
  note T = createBlockchain_issuer_local [where P = ?P and E = exampleEnv and a = exampleArgs
      and vm = exampleVM and sels = "[SelTimer]"]
  note D = createBlockchain_issuer_local [where P = ?P and E = exampleEnv and a = exampleArgs
      and vm = exampleVM and sels = "[SelDone ContextCanceled]"]
  note Q = createBlockchain_issuer_local [where P = ?P and E = pendingEnv and a = ?a2
      and vm = exampleVM]
  have r0: "ReadFile noGenesisEnv (Genesis exampleVM) = Inl (Msg ''no such file'')"
    by (simp add: noGenesisEnv_def)
  have a1: "createBlockchain ?P noGenesisEnv exampleArgs exampleVM [SelTimer] =
        (Some (Inl (Wrap (''could not read genesis file ('' @ Genesis exampleVM @ '')'')
           (Msg ''no such file''))),
         [Call_ReadFile (Genesis exampleVM) (Inl (Msg ''no such file''))])"
    by (rule N [THEN conjunct1, rule_format, OF r0])
  have r1: "ReadFile exampleEnv (Genesis exampleVM) = Inr []"
    by (simp add: exampleEnv_def)
  have c1: "createChainTx exampleEnv exampleArgs exampleVM [] = Inr (MkID 3)"
    by (simp add: createChainTx_def exampleEnv_def)
  note T2 = T [THEN conjunct2, THEN conjunct1, rule_format, OF r1]
  have a2: "length (filter isCreateBlockchain
        (snd (createBlockchain ?P exampleEnv exampleArgs exampleVM [SelTimer]))) = 1"
    by (rule T2 [THEN conjunct2, THEN conjunct1])
  have a3: "Call_GetTxStatus (Client 1) (MkID 3) True (Inr Committed)
        \<in> set (snd (createBlockchain ?P exampleEnv exampleArgs exampleVM [SelTimer]))"
    by (simp add: chain_eval example_defs)
  from T2 [THEN conjunct2, THEN conjunct2, rule_format, OF a3]
  have "createChainTx exampleEnv exampleArgs exampleVM [] = Inr (MkID 3)" .
  have "callClient (Call_GetTxStatus (Client 1) (MkID 3) True (Inr Committed)) = Some (Client 1)"
    by simp
  from T [THEN conjunct2, THEN conjunct2, THEN conjunct1, rule_format, OF a3 this]
  have "Client 1 = txPChainClient exampleArgs" .
  have a4: "Call_TimeAfter 1000000000
        \<in> set (snd (createBlockchain ?P exampleEnv exampleArgs exampleVM [SelTimer]))"
    by (simp add: chain_eval example_defs)
  from T [THEN conjunct2, THEN conjunct2, THEN conjunct2, THEN conjunct1, rule_format, OF a4]
  have "1000000000 = apiRetryFreq ?P" .
  have h5: "ReadFile pendingEnv (Genesis exampleVM) = Inr []
      \<and> createChainTx pendingEnv ?a2 exampleVM [] = Inr (MkID 3)
      \<and> (\<forall>k < 5. \<exists>st. GetTxStatus pendingEnv (txPChainClient ?a2) (MkID 3) True k = Inr st
            \<and> st \<noteq> Committed)"
    by (simp add: createChainTx_def example_defs)
  note Q5 = Q [where sels = "[]", THEN conjunct2, THEN conjunct2, THEN conjunct2, THEN conjunct2,
      THEN conjunct1, rule_format, OF h5]
  have a5: "fst (createBlockchain ?P pendingEnv ?a2 exampleVM (replicate 5 SelTimer)) = None"
    by (rule Q5 [THEN conjunct1])
  have a6: "length (filter isGetTxStatus (snd (createBlockchain ?P pendingEnv ?a2 exampleVM
      (replicate 5 SelTimer)))) = 5"
    by (rule Q5 [THEN conjunct2])
  have a7: "fst (createBlockchain ?P exampleEnv exampleArgs exampleVM [SelDone ContextCanceled])
        = Some (Inl ContextCanceled)"
    by (simp add: chain_eval example_defs)
  from D [THEN conjunct2, THEN conjunct2, THEN conjunct2, THEN conjunct2, THEN conjunct2,
      rule_format, OF a7]
  have "(\<exists>x. ReadFile exampleEnv (Genesis exampleVM) = Inl x)
        \<or> (\<exists>genesis x. ReadFile exampleEnv (Genesis exampleVM) = Inr genesis
              \<and> createChainTx exampleEnv exampleArgs exampleVM genesis = Inl x)
        \<or> SelDone ContextCanceled \<in> set [SelDone ContextCanceled]
        \<or> (\<exists>t j. GetTxStatus exampleEnv (txPChainClient exampleArgs) t True j = Inl ContextCanceled)" .
  from r0 a1 r1 c1 a2 a3 a4 a5 a6 a7 show ?thesis by (intro conjI)
qed

section \<open>Properties of \<^verbatim>\<open>addAllAsValidators\<close>\<close>

lemma addValidatorWorker_ok:
  "addValidatorWorker E a tx i k s = (cs, Exit None, s') \<Longrightarrow>
     Call_GetTxStatus (clientOf (allNodes a) i) tx True (Inr Committed) \<in> set cs"
  by (auto simp: addValidatorWorker_def clientOf_def Let_def split: sum.splits if_splits)

lemma addValidatorWorker_entries:
  "q \<in> set (fst (addValidatorWorker E a tx i k s)) \<Longrightarrow>
     \<not> isSubmit q \<and> (\<forall>r. q \<noteq> Call_Wait r)"
  by (auto simp: addValidatorWorker_def Let_def split: sum.splits if_splits)

text \<open>The wait that follows a submission, as \<^verbatim>\<open>addAllLoop\<close> runs it.\<close>

lemma addValidator_wait_trace:
  "snd (groupWait (\<lambda>u. apiRetryFreq P) (addValidatorWorker E a tx) (length (allNodes a)) () s)
     = trace (addValidatorGroup P E a tx s)
       @ (case fst (groupWait (\<lambda>u. apiRetryFreq P) (addValidatorWorker E a tx) (length (allNodes a)) () s)
          of None \<Rightarrow> [] | Some r \<Rightarrow> [Call_Wait r])"
  by (simp add: groupWait_def addValidatorGroup_def Let_def)

lemma addValidator_group_entries:
  "q \<in> set (trace (addValidatorGroup P E a tx s)) \<Longrightarrow> \<not> isSubmit q \<and> (\<forall>r. q \<noteq> Call_Wait r)"
proof -
  assume "q \<in> set (trace (addValidatorGroup P E a tx s))"
  then have "(\<exists>u. q = Call_TimeAfter (apiRetryFreq P))
      \<or> (\<exists>i k u. i < length (allNodes a) \<and> q \<in> set (fst (addValidatorWorker E a tx i k u)))"
    unfolding addValidatorGroup_def
    using final_trace_cases [where c = q and iv = "\<lambda>u::unit. apiRetryFreq P"
        and body = "addValidatorWorker E a tx" and n = "length (allNodes a)" and sh = "()"
        and sched = s]
    by simp
  then show ?thesis
  proof
    assume "\<exists>u::unit. q = Call_TimeAfter (apiRetryFreq P)"
    then show ?thesis by auto
  next
    assume "\<exists>i k u. i < length (allNodes a) \<and> q \<in> set (fst (addValidatorWorker E a tx i k u))"
    then obtain i k u where "q \<in> set (fst (addValidatorWorker E a tx i k u))" by blast
    then show ?thesis by (rule addValidatorWorker_entries)
  qed
qed

lemma addValidator_wait_no_submit:
  "q \<in> set (snd (groupWait (\<lambda>u. apiRetryFreq (P::params)) (addValidatorWorker E a tx) (length (allNodes a)) () s))
     \<Longrightarrow> \<not> isSubmit q"
  using addValidator_group_entries [of q P E a tx s]
  by (auto simp: addValidator_wait_trace split: option.splits)

lemma addValidator_wait_success:
  assumes "fst (groupWait (\<lambda>u. apiRetryFreq (P::params)) (addValidatorWorker E a tx) (length (allNodes a)) () s)
     = Some None"
  shows "\<forall>i < length (allNodes a).
      Call_GetTxStatus (clientOf (allNodes a) i) tx True (Inr Committed)
        \<in> set (snd (groupWait (\<lambda>u. apiRetryFreq P) (addValidatorWorker E a tx) (length (allNodes a)) () s))"
    and "Call_Wait None
        \<in> set (snd (groupWait (\<lambda>u. apiRetryFreq P) (addValidatorWorker E a tx) (length (allNodes a)) () s))"
proof -
  let ?g = "addValidatorGroup P E a tx s"
  from assms have w: "waitResult ?g = Some None"
    by (simp add: groupWait_def addValidatorGroup_def Let_def)
  have inv: "errInv ?g" by (simp add: addValidatorGroup_def errInv_final)
  have len: "length (workers ?g) = length (allNodes a)" by (simp add: addValidatorGroup_def)
  from w waitResult_success [OF inv] len
  have all: "\<forall>i < length (allNodes a). workers ?g ! i = Returned None" by simp
  show "\<forall>i < length (allNodes a).
      Call_GetTxStatus (clientOf (allNodes a) i) tx True (Inr Committed)
        \<in> set (snd (groupWait (\<lambda>u. apiRetryFreq P) (addValidatorWorker E a tx) (length (allNodes a)) () s))"
  proof (intro allI impI)
    fix i assume i: "i < length (allNodes a)"
    with all have "workers ?g ! i = Returned None" by simp
    with okInv_final [of "addValidatorWorker E a tx" "\<lambda>u. apiRetryFreq P" "length (allNodes a)" "()" s] i
    obtain k u cs u' where "addValidatorWorker E a tx i k u = (cs, Exit None, u')"
      "set cs \<subseteq> set (trace ?g)"
      unfolding okInv_def addValidatorGroup_def by (metis final_length)
    with addValidatorWorker_ok [of E a tx i k u cs u']
    have "Call_GetTxStatus (clientOf (allNodes a) i) tx True (Inr Committed) \<in> set (trace ?g)"
      by blast
    then show "Call_GetTxStatus (clientOf (allNodes a) i) tx True (Inr Committed)
        \<in> set (snd (groupWait (\<lambda>u. apiRetryFreq P) (addValidatorWorker E a tx) (length (allNodes a)) () s))"
      by (simp add: addValidator_wait_trace)
  qed
  show "Call_Wait None
        \<in> set (snd (groupWait (\<lambda>u. apiRetryFreq P) (addValidatorWorker E a tx) (length (allNodes a)) () s))"
    using assms by (simp add: addValidator_wait_trace)
qed

lemma split_after_prefix:
  assumes "xs @ ys = pre @ x # post" "x \<notin> set xs"
  shows "\<exists>pre'. pre = xs @ pre' \<and> ys = pre' @ x # post"
proof -
  from assms(1) obtain us where
    "(xs = pre @ us \<and> us @ ys = x # post) \<or> (xs @ us = pre \<and> ys = us @ x # post)"
    unfolding append_eq_append_conv2 by blast
  then show ?thesis
  proof
    assume a: "xs = pre @ us \<and> us @ ys = x # post"
    show ?thesis
    proof (cases us)
      case Nil
      with a show ?thesis by auto
    next
      case (Cons u us')
      with a have "x \<in> set xs" by auto
      with assms(2) show ?thesis by blast
    qed
  next
    assume "xs @ us = pre \<and> ys = us @ x # post"
    then show ?thesis by auto
  qed
qed

lemma submitCall_simps [simp]:
  "isSubmit (submitCall P E a sid nd j)"
  "submittedNode (submitCall P E a sid nd j) = [PrefixedString (GetNodeID (snd nd)) NodeIDPrefix]"
  "submitCall P E a sid nd j \<noteq> Call_Wait r"
  by (simp_all add: submitCall_def)

lemma submitCall_tx:
  "submitResult P E a sid nd j = Inr tx \<Longrightarrow> submitTx (submitCall P E a sid nd j) = Some tx"
  by (simp add: submitCall_def)

lemma addAllLoop_Nil:
  "addAllLoop P E a sid [] j scheds =
     (Some None, [Log_Info ''all nodes added as subnet validators for subnet %s'' [ArgStr sid] ])"
  by simp

lemma addAllLoop_submit_error:
  "submitResult P E a sid nd j = Inl e \<Longrightarrow>
     addAllLoop P E a sid (nd # rest) j scheds =
       (Some (Some (Wrap ''unable to add subnet validator'' e)), [submitCall P E a sid nd j])"
  by (simp add: submitResult_def submitCall_def Let_def)

lemma addAllLoop_blocked:
  "submitResult P E a sid nd j = Inr tx \<Longrightarrow>
   fst (validatorWait P E a tx (case scheds of [] \<Rightarrow> [] | s # ss \<Rightarrow> s)) = None \<Longrightarrow>
     addAllLoop P E a sid (nd # rest) j scheds =
       (None, submitCall P E a sid nd j
                # snd (validatorWait P E a tx (case scheds of [] \<Rightarrow> [] | s # ss \<Rightarrow> s)))"
  by (auto simp: submitResult_def submitCall_def validatorWait_def Let_def split: prod.splits option.splits)

lemma addAllLoop_wait_error:
  "submitResult P E a sid nd j = Inr tx \<Longrightarrow>
   fst (validatorWait P E a tx (case scheds of [] \<Rightarrow> [] | s # ss \<Rightarrow> s)) = Some (Some e) \<Longrightarrow>
     addAllLoop P E a sid (nd # rest) j scheds =
       (Some (Some e), submitCall P E a sid nd j
                # snd (validatorWait P E a tx (case scheds of [] \<Rightarrow> [] | s # ss \<Rightarrow> s)))"
  by (auto simp: submitResult_def submitCall_def validatorWait_def Let_def split: prod.splits option.splits)

lemma addAllLoop_next:
  "submitResult P E a sid nd j = Inr tx \<Longrightarrow>
   fst (validatorWait P E a tx (case scheds of [] \<Rightarrow> [] | s # ss \<Rightarrow> s)) = Some None \<Longrightarrow>
     addAllLoop P E a sid (nd # rest) j scheds =
       (fst (addAllLoop P E a sid rest (Suc j) (tl scheds)),
        submitCall P E a sid nd j
          # snd (validatorWait P E a tx (case scheds of [] \<Rightarrow> [] | s # ss \<Rightarrow> s))
          @ snd (addAllLoop P E a sid rest (Suc j) (tl scheds)))"
  by (auto simp: submitResult_def submitCall_def validatorWait_def Let_def split: prod.splits option.splits)

lemma validatorWait_no_submit:
  "q \<in> set (snd (validatorWait P E a tx s)) \<Longrightarrow> \<not> isSubmit q"
  unfolding validatorWait_def by (rule addValidator_wait_no_submit)

lemma validatorWait_success:
  assumes "fst (validatorWait P E a tx s) = Some None"
  shows "\<forall>i < length (allNodes a).
      Call_GetTxStatus (clientOf (allNodes a) i) tx True (Inr Committed) \<in> set (snd (validatorWait P E a tx s))"
    and "Call_Wait None \<in> set (snd (validatorWait P E a tx s))"
  using assms addValidator_wait_success [of P E a tx s] unfolding validatorWait_def by blast+

lemma validatorWait_trace:
  "snd (validatorWait P E a tx s)
     = trace (addValidatorGroup P E a tx s)
       @ (case fst (validatorWait P E a tx s) of None \<Rightarrow> [] | Some r \<Rightarrow> [Call_Wait r])"
  unfolding validatorWait_def by (rule addValidator_wait_trace)

lemma validatorWait_Call_Wait:
  assumes "snd (validatorWait P E a tx s) = pre @ Call_Wait r # post"
  shows "post = [] \<and> fst (validatorWait P E a tx s) = Some r"
proof -
  let ?g = "trace (addValidatorGroup P E a tx s)"
  have nw: "Call_Wait r \<notin> set ?g" using addValidator_group_entries [of "Call_Wait r" P E a tx s] by blast
  show ?thesis
  proof (cases "fst (validatorWait P E a tx s)")
    case None
    with assms validatorWait_trace [of P E a tx s] have "?g = pre @ Call_Wait r # post" by simp
    then have "Call_Wait r \<in> set ?g" by simp
    with nw show ?thesis by blast
  next
    case (Some r')
    with assms validatorWait_trace [of P E a tx s]
    have "?g @ [Call_Wait r'] = pre @ Call_Wait r # post" by simp
    from split_after_prefix [OF this nw] obtain pre' where "[Call_Wait r'] = pre' @ Call_Wait r # post"
      by blast
    then have "post = [] \<and> r' = r" by (cases pre') auto
    with Some show ?thesis by simp
  qed
qed

lemma submittedNodes_simps [simp]:
  "submittedNodes [] = []"
  "submittedNodes (q # t) = submittedNode q @ submittedNodes t"
  "submittedNodes (t @ t') = submittedNodes t @ submittedNodes t'"
  by (simp_all add: submittedNodes_def)

lemma submittedNodes_none: "(\<And>q. q \<in> set t \<Longrightarrow> \<not> isSubmit q) \<Longrightarrow> submittedNodes t = []"
proof (induction t)
  case Nil
  then show ?case by simp
next
  case (Cons q t)
  have "\<not> isSubmit q" using Cons.prems by simp
  then have "submittedNode q = []" by (cases q) auto
  with Cons show ?case by simp
qed

declare addAllLoop.simps [simp del]

lemma nodeIDs_simps [simp]:
  "nodeIDs [] = []"
  "nodeIDs (nd # rest) = PrefixedString (GetNodeID (snd nd)) NodeIDPrefix # nodeIDs rest"
  "length (nodeIDs nodes) = length nodes"
  by (simp_all add: nodeIDs_def)

lemma addAllLoop_submitted:
  "(\<exists>m \<le> length rest. submittedNodes (snd (addAllLoop P E a sid rest j scheds)) = take m (nodeIDs rest))
   \<and> (fst (addAllLoop P E a sid rest j scheds) = Some None \<longrightarrow>
        submittedNodes (snd (addAllLoop P E a sid rest j scheds)) = nodeIDs rest)"
proof (induction rest arbitrary: j scheds)
  case Nil
  show ?case by (simp add: addAllLoop_Nil)
next
  case (Cons nd rest)
  let ?s = "case scheds of [] \<Rightarrow> [] | s # ss \<Rightarrow> s"
  let ?q = "submitCall P E a sid nd j"
  let ?id = "PrefixedString (GetNodeID (snd nd)) NodeIDPrefix"
  have one: "\<And>t. (\<And>q. q \<in> set t \<Longrightarrow> \<not> isSubmit q) \<Longrightarrow>
      \<exists>m \<le> length (nd # rest). submittedNodes (?q # t) = take m (nodeIDs (nd # rest))"
  proof -
    fix t assume "\<And>q. q \<in> set t \<Longrightarrow> \<not> isSubmit q"
    then have "submittedNodes (?q # t) = take (Suc 0) (nodeIDs (nd # rest))"
      by (simp add: submittedNodes_none)
    then show "\<exists>m \<le> length (nd # rest). submittedNodes (?q # t) = take m (nodeIDs (nd # rest))"
      by (intro exI [of _ "Suc 0"]) simp
  qed
  show ?case
  proof (cases "submitResult P E a sid nd j")
    case (Inl e)
    from one [of "[]"] show ?thesis by (simp add: addAllLoop_submit_error [OF Inl])
  next
    case (Inr tx)
    let ?w = "validatorWait P E a tx ?s"
    have ns: "\<And>q. q \<in> set (snd ?w) \<Longrightarrow> \<not> isSubmit q" by (rule validatorWait_no_submit)
    show ?thesis
    proof (cases "fst ?w")
      case None
      from one [OF ns] show ?thesis by (simp add: addAllLoop_blocked [OF Inr None])
    next
      case (Some r)
      show ?thesis
      proof (cases r)
        case (Some e)
        with \<open>fst ?w = Some r\<close> have w: "fst ?w = Some (Some e)" by simp
        from one [OF ns] show ?thesis by (simp add: addAllLoop_wait_error [OF Inr w])
      next
        case None
        with \<open>fst ?w = Some r\<close> have w: "fst ?w = Some None" by simp
        let ?L = "addAllLoop P E a sid rest (Suc j) (tl scheds)"
        from Cons.IH [of "Suc j" "tl scheds"] obtain m where
          m: "m \<le> length rest" "submittedNodes (snd ?L) = take m (nodeIDs rest)"
          and f: "fst ?L = Some None \<longrightarrow> submittedNodes (snd ?L) = nodeIDs rest"
          by blast
        have sn: "submittedNodes (snd (addAllLoop P E a sid (nd # rest) j scheds))
            = ?id # submittedNodes (snd ?L)"
          using ns by (simp add: addAllLoop_next [OF Inr w] submittedNodes_none)
        have "submittedNodes (snd (addAllLoop P E a sid (nd # rest) j scheds))
            = take (Suc m) (nodeIDs (nd # rest))"
          using sn m by simp
        then have "\<exists>m \<le> length (nd # rest).
            submittedNodes (snd (addAllLoop P E a sid (nd # rest) j scheds)) = take m (nodeIDs (nd # rest))"
          using m(1) by (intro exI [of _ "Suc m"]) simp
        moreover have "fst (addAllLoop P E a sid (nd # rest) j scheds) = Some None \<longrightarrow>
            submittedNodes (snd (addAllLoop P E a sid (nd # rest) j scheds)) = nodeIDs (nd # rest)"
          using f sn by (simp add: addAllLoop_next [OF Inr w])
        ultimately show ?thesis by blast
      qed
    qed
  qed
qed

lemma addAllLoop_sequential:
  "snd (addAllLoop P E a sid rest j scheds) = pre @ q # post \<Longrightarrow> isSubmit q \<Longrightarrow>
   \<exists>q' \<in> set post. isSubmit q' \<Longrightarrow> confirmedBeforeNext a q post"
proof (induction rest arbitrary: j scheds pre)
  case Nil
  from Nil.prems(1) have "q \<in> set [Log_Info ''all nodes added as subnet validators for subnet %s'' [ArgStr sid] ]"
    by (simp add: addAllLoop_Nil)
  with Nil.prems(2) show ?case by auto
next
  case (Cons nd rest)
  let ?s = "case scheds of [] \<Rightarrow> [] | s # ss \<Rightarrow> s"
  let ?q = "submitCall P E a sid nd j"
  have single: "\<And>t. snd (addAllLoop P E a sid (nd # rest) j scheds) = ?q # t \<Longrightarrow>
      (\<And>x. x \<in> set t \<Longrightarrow> \<not> isSubmit x) \<Longrightarrow> False"
  proof -
    fix t assume t: "snd (addAllLoop P E a sid (nd # rest) j scheds) = ?q # t"
      and ns: "\<And>x. x \<in> set t \<Longrightarrow> \<not> isSubmit x"
    from Cons.prems(1) t have e: "?q # t = pre @ q # post" by simp
    show False
    proof (cases pre)
      case Nil
      with e have "post = t" by simp
      with Cons.prems(3) ns show False by blast
    next
      case (Cons p pre')
      with e have "q \<in> set t" by auto
      with Cons.prems(2) ns show False by blast
    qed
  qed
  show ?case
  proof (cases "submitResult P E a sid nd j")
    case (Inl e)
    have "snd (addAllLoop P E a sid (nd # rest) j scheds) = ?q # []"
      by (simp add: addAllLoop_submit_error [OF Inl])
    from single [OF this] show ?thesis by simp
  next
    case (Inr tx)
    let ?w = "validatorWait P E a tx ?s"
    have ns: "\<And>x. x \<in> set (snd ?w) \<Longrightarrow> \<not> isSubmit x" by (rule validatorWait_no_submit)
    show ?thesis
    proof (cases "fst ?w")
      case None
      have "snd (addAllLoop P E a sid (nd # rest) j scheds) = ?q # snd ?w"
        by (simp add: addAllLoop_blocked [OF Inr None])
      from single [OF this ns] show ?thesis by simp
    next
      case (Some r)
      show ?thesis
      proof (cases r)
        case (Some e)
        with \<open>fst ?w = Some r\<close> have w: "fst ?w = Some (Some e)" by simp
        have "snd (addAllLoop P E a sid (nd # rest) j scheds) = ?q # snd ?w"
          by (simp add: addAllLoop_wait_error [OF Inr w])
        from single [OF this ns] show ?thesis by simp
      next
        case None
        with \<open>fst ?w = Some r\<close> have w: "fst ?w = Some None" by simp
        let ?L = "addAllLoop P E a sid rest (Suc j) (tl scheds)"
        have t: "snd (addAllLoop P E a sid (nd # rest) j scheds) = ?q # snd ?w @ snd ?L"
          by (simp add: addAllLoop_next [OF Inr w])
        with Cons.prems(1) have e: "?q # snd ?w @ snd ?L = pre @ q # post" by simp
        show ?thesis
        proof (cases pre)
          case Nil
          with e have q: "q = ?q" and p: "post = snd ?w @ snd ?L" by simp_all
          have tw: "takeWhile (\<lambda>c. \<not> isSubmit c) post
              = snd ?w @ takeWhile (\<lambda>c. \<not> isSubmit c) (snd ?L)"
            unfolding p using ns by (intro takeWhile_append2) simp
          show ?thesis
            unfolding confirmedBeforeNext_def
            using validatorWait_success [OF w] submitCall_tx [OF Inr] q tw
            by auto
        next
          case (Cons p pre')
          with e have e': "snd ?w @ snd ?L = pre' @ q # post" by simp
          have "q \<notin> set (snd ?w)" using ns Cons.prems(2) by blast
          from split_after_prefix [OF e' this] obtain pre'' where
            "snd ?L = pre'' @ q # post" by blast
          from Cons.IH [OF this Cons.prems(2) Cons.prems(3)] show ?thesis .
        qed
      qed
    qed
  qed
qed

lemma addAllLoop_failed_wait:
  "snd (addAllLoop P E a sid rest j scheds) = pre @ Call_Wait (Some e) # post \<Longrightarrow>
     post = [] \<and> fst (addAllLoop P E a sid rest j scheds) = Some (Some e)"
proof (induction rest arbitrary: j scheds pre)
  case Nil
  from Nil.prems have "Call_Wait (Some e)
      \<in> set [Log_Info ''all nodes added as subnet validators for subnet %s'' [ArgStr sid] ]"
    by (simp add: addAllLoop_Nil)
  then show ?case by simp
next
  case (Cons nd rest)
  let ?s = "case scheds of [] \<Rightarrow> [] | s # ss \<Rightarrow> s"
  let ?q = "submitCall P E a sid nd j"
  have tail: "\<And>t. snd (addAllLoop P E a sid (nd # rest) j scheds) = ?q # t \<Longrightarrow>
      \<exists>pre'. t = pre' @ Call_Wait (Some e) # post"
  proof -
    fix t assume "snd (addAllLoop P E a sid (nd # rest) j scheds) = ?q # t"
    with Cons.prems have e: "?q # t = pre @ Call_Wait (Some e) # post" by simp
    show "\<exists>pre'. t = pre' @ Call_Wait (Some e) # post"
    proof (cases pre)
      case Nil
      with e show ?thesis by simp
    next
      case (Cons p pre')
      with e show ?thesis by auto
    qed
  qed
  show ?case
  proof (cases "submitResult P E a sid nd j")
    case (Inl x)
    have "snd (addAllLoop P E a sid (nd # rest) j scheds) = ?q # []"
      by (simp add: addAllLoop_submit_error [OF Inl])
    from tail [OF this] show ?thesis by simp
  next
    case (Inr tx)
    let ?w = "validatorWait P E a tx ?s"
    show ?thesis
    proof (cases "fst ?w")
      case None
      have "snd (addAllLoop P E a sid (nd # rest) j scheds) = ?q # snd ?w"
        by (simp add: addAllLoop_blocked [OF Inr None])
      from tail [OF this] obtain pre' where "snd ?w = pre' @ Call_Wait (Some e) # post" by blast
      from validatorWait_Call_Wait [OF this] None show ?thesis by simp
    next
      case (Some r)
      show ?thesis
      proof (cases r)
        case (Some x)
        with \<open>fst ?w = Some r\<close> have w: "fst ?w = Some (Some x)" by simp
        have "snd (addAllLoop P E a sid (nd # rest) j scheds) = ?q # snd ?w"
          by (simp add: addAllLoop_wait_error [OF Inr w])
        from tail [OF this] obtain pre' where "snd ?w = pre' @ Call_Wait (Some e) # post" by blast
        from validatorWait_Call_Wait [OF this] w show ?thesis
          by (simp add: addAllLoop_wait_error [OF Inr w])
      next
        case None
        with \<open>fst ?w = Some r\<close> have w: "fst ?w = Some None" by simp
        let ?L = "addAllLoop P E a sid rest (Suc j) (tl scheds)"
        have "snd (addAllLoop P E a sid (nd # rest) j scheds) = ?q # snd ?w @ snd ?L"
          by (simp add: addAllLoop_next [OF Inr w])
        from tail [OF this] obtain pre' where e': "snd ?w @ snd ?L = pre' @ Call_Wait (Some e) # post"
          by blast
        have "Call_Wait (Some e) \<notin> set (snd ?w)"
        proof
          assume "Call_Wait (Some e) \<in> set (snd ?w)"
          then obtain x y where "snd ?w = x @ Call_Wait (Some e) # y" by (meson split_list)
          from validatorWait_Call_Wait [OF this] w show False by simp
        qed
        from split_after_prefix [OF e' this] obtain pre'' where
          "snd ?L = pre'' @ Call_Wait (Some e) # post" by blast
        from Cons.IH [OF this] show ?thesis by (simp add: addAllLoop_next [OF Inr w])
      qed
    qed
  qed
qed

lemma submittedNodes_length: "length (submittedNodes t) = length (filter isSubmit t)"
proof (induction t)
  case Nil
  then show ?case by simp
next
  case (Cons q t)
  then show ?case by (cases q) simp_all
qed

text \<open>
  Claim C4. \<^verbatim>\<open>addAllAsValidators\<close> registers the nodes one after the other, for every
  schedule of every wait:
  \<^item> the nodes registered are the first \<open>m\<close> nodes of the loop's order, one submission each,
    so there are at most as many submissions as nodes;
  \<^item> when the stage returns nil it has made exactly one submission for every node;
  \<^item> whenever a submission is followed by another one, the trace between them holds a
    \<open>Committed\<close> answer for the first transaction from every node of the fleet and the
    return of \<^verbatim>\<open>g.Wait()\<close> with nil;
  \<^item> a wait that returns an error ends the trace and the stage returns that error: no
    submission follows it.
\<close>

theorem addAllAsValidators_sequential:
  "(\<exists>m \<le> length (allNodes a).
       submittedNodes (snd (addAllAsValidators P E a sid scheds)) = take m (nodeIDs (allNodes a)))
   \<and> length (filter isSubmit (snd (addAllAsValidators P E a sid scheds))) \<le> length (allNodes a)
   \<and> (fst (addAllAsValidators P E a sid scheds) = Some None \<longrightarrow>
        submittedNodes (snd (addAllAsValidators P E a sid scheds)) = nodeIDs (allNodes a)
        \<and> length (filter isSubmit (snd (addAllAsValidators P E a sid scheds))) = length (allNodes a))
   \<and> (\<forall>pre q post. snd (addAllAsValidators P E a sid scheds) = pre @ q # post \<and> isSubmit q
        \<and> (\<exists>q' \<in> set post. isSubmit q') \<longrightarrow> confirmedBeforeNext a q post)
   \<and> (\<forall>pre e post. snd (addAllAsValidators P E a sid scheds) = pre @ Call_Wait (Some e) # post \<longrightarrow>
        post = [] \<and> fst (addAllAsValidators P E a sid scheds) = Some (Some e))"
proof (intro conjI)
  let ?L = "addAllLoop P E a sid (allNodes a) 0 scheds"
  from addAllLoop_submitted [of "allNodes a" P E a sid 0 scheds] obtain m where
    m: "m \<le> length (allNodes a)" "submittedNodes (snd ?L) = take m (nodeIDs (allNodes a))"
    and f: "fst ?L = Some None \<longrightarrow> submittedNodes (snd ?L) = nodeIDs (allNodes a)"
    by blast
  show "\<exists>m \<le> length (allNodes a).
       submittedNodes (snd (addAllAsValidators P E a sid scheds)) = take m (nodeIDs (allNodes a))"
    using m unfolding addAllAsValidators_def by blast
  have "length (submittedNodes (snd ?L)) \<le> length (allNodes a)"
    using m by simp
  then show "length (filter isSubmit (snd (addAllAsValidators P E a sid scheds))) \<le> length (allNodes a)"
    unfolding addAllAsValidators_def by (simp add: submittedNodes_length)
  show "fst (addAllAsValidators P E a sid scheds) = Some None \<longrightarrow>
        submittedNodes (snd (addAllAsValidators P E a sid scheds)) = nodeIDs (allNodes a)
        \<and> length (filter isSubmit (snd (addAllAsValidators P E a sid scheds))) = length (allNodes a)"
  proof
    assume "fst (addAllAsValidators P E a sid scheds) = Some None"
    with f have s: "submittedNodes (snd ?L) = nodeIDs (allNodes a)"
      unfolding addAllAsValidators_def by simp
    then have "length (filter isSubmit (snd ?L)) = length (allNodes a)"
      using submittedNodes_length [of "snd ?L"] by simp
    with s show "submittedNodes (snd (addAllAsValidators P E a sid scheds)) = nodeIDs (allNodes a)
        \<and> length (filter isSubmit (snd (addAllAsValidators P E a sid scheds))) = length (allNodes a)"
      unfolding addAllAsValidators_def by simp
  qed
  show "\<forall>pre q post. snd (addAllAsValidators P E a sid scheds) = pre @ q # post \<and> isSubmit q
        \<and> (\<exists>q' \<in> set post. isSubmit q') \<longrightarrow> confirmedBeforeNext a q post"
    unfolding addAllAsValidators_def using addAllLoop_sequential by blast
  show "\<forall>pre e post. snd (addAllAsValidators P E a sid scheds) = pre @ Call_Wait (Some e) # post \<longrightarrow>
        post = [] \<and> fst (addAllAsValidators P E a sid scheds) = Some (Some e)"
    unfolding addAllAsValidators_def using addAllLoop_failed_wait by blast
qed

lemmas loop_eval = addAllAsValidators_def addAllLoop.simps groupWait_def final_def spawn_def
  step.simps finish_def waitResult_def Let_def addValidatorWorker_def unixAfter_def
  NodeIDPrefix_def nodeIDs_def clientOf_def

text \<open>
  On the example fleet: both registrations commit on both nodes; the second node cannot
  be reached during the first wait.
\<close>

theorem addAllAsValidators_sequential_witness:
  "fst (addAllAsValidators exampleParams exampleEnv exampleArgs ''subnet7''
          [ [Enter 0, Fire 0, Enter 1, Fire 1], [Enter 1, Fire 1, Enter 0, Fire 0] ]) = Some None
   \<and> submittedNodes (snd (addAllAsValidators exampleParams exampleEnv exampleArgs ''subnet7''
          [ [Enter 0, Fire 0, Enter 1, Fire 1], [Enter 1, Fire 1, Enter 0, Fire 0] ]))
       = [''NodeID-A'', ''NodeID-B'']
   \<and> length (filter isSubmit (snd (addAllAsValidators exampleParams exampleEnv exampleArgs ''subnet7''
          [ [Enter 0, Fire 0, Enter 1, Fire 1], [Enter 1, Fire 1, Enter 0, Fire 0] ]))) = 2
   \<and> confirmedBeforeNext exampleArgs
        (hd (snd (addAllAsValidators exampleParams exampleEnv exampleArgs ''subnet7''
          [ [Enter 0, Fire 0, Enter 1, Fire 1], [Enter 1, Fire 1, Enter 0, Fire 0] ])))
        (tl (snd (addAllAsValidators exampleParams exampleEnv exampleArgs ''subnet7''
          [ [Enter 0, Fire 0, Enter 1, Fire 1], [Enter 1, Fire 1, Enter 0, Fire 0] ])))
   \<and> Call_Wait (Some (Msg ''unreachable''))
        \<in> set (snd (addAllAsValidators exampleParams unreachableEnv exampleArgs ''subnet7''
          [ [Enter 1, Fire 1, Enter 0, Observe 0], [Enter 0, Fire 0, Enter 1, Fire 1] ]))
   \<and> fst (addAllAsValidators exampleParams unreachableEnv exampleArgs ''subnet7''
          [ [Enter 1, Fire 1, Enter 0, Observe 0], [Enter 0, Fire 0, Enter 1, Fire 1] ])
       = Some (Some (Msg ''unreachable''))
   \<and> length (filter isSubmit (snd (addAllAsValidators exampleParams unreachableEnv exampleArgs
          ''subnet7'' [ [Enter 1, Fire 1, Enter 0, Observe 0], [Enter 0, Fire 0, Enter 1, Fire 1] ])))
       \<le> 2"
proof -
  let ?S = "[ [Enter 0, Fire 0, Enter 1, Fire 1], [Enter 1, Fire 1, Enter 0, Fire 0] ]"
  let ?F = "[ [Enter 1, Fire 1, Enter 0, Observe 0], [Enter 0, Fire 0, Enter 1, Fire 1] ]"
  let ?ok = "addAllAsValidators exampleParams exampleEnv exampleArgs ''subnet7'' ?S"
  let ?bad = "addAllAsValidators exampleParams unreachableEnv exampleArgs ''subnet7'' ?F"
  note T = addAllAsValidators_sequential [where P = exampleParams and E = exampleEnv
      and a = exampleArgs and sid = "''subnet7''" and scheds = ?S]
  note U = addAllAsValidators_sequential [where P = exampleParams and E = unreachableEnv
      and a = exampleArgs and sid = "''subnet7''" and scheds = ?F]
  have n: "length (allNodes exampleArgs) = 2" by (simp add: example_defs)
  have ids: "nodeIDs (allNodes exampleArgs) = [''NodeID-A'', ''NodeID-B'']"
    by (simp add: example_defs nodeIDs_def NodeIDPrefix_def)
  have a1: "fst ?ok = Some None"
    by (simp add: loop_eval example_defs)
  note T3 = T [THEN conjunct2, THEN conjunct2, THEN conjunct1, rule_format, OF a1]
  have a2: "submittedNodes (snd ?ok) = [''NodeID-A'', ''NodeID-B'']"
    using T3 [THEN conjunct1] ids by simp
  have a3: "length (filter isSubmit (snd ?ok)) = 2"
    using T3 [THEN conjunct2] n by simp
  have ne: "snd ?ok \<noteq> []" using a3 by auto
  have sp: "snd ?ok = [] @ hd (snd ?ok) # tl (snd ?ok)" using ne by simp
  have h1: "isSubmit (hd (snd ?ok))"
    by (simp add: loop_eval example_defs)
  have h2: "\<exists>q' \<in> set (tl (snd ?ok)). isSubmit q'"
    by (simp add: loop_eval example_defs)
  have a4: "confirmedBeforeNext exampleArgs (hd (snd ?ok)) (tl (snd ?ok))"
    using T [THEN conjunct2, THEN conjunct2, THEN conjunct2, THEN conjunct1, rule_format,
        of "[]" "hd (snd ?ok)" "tl (snd ?ok)"] sp h1 h2 by blast
  have a5: "Call_Wait (Some (Msg ''unreachable'')) \<in> set (snd ?bad)"
    by (simp add: loop_eval example_defs)
  then obtain pre post where "snd ?bad = pre @ Call_Wait (Some (Msg ''unreachable'')) # post"
    by (meson split_list)
  from U [THEN conjunct2, THEN conjunct2, THEN conjunct2, THEN conjunct2, rule_format, OF this]
  have a6: "fst ?bad = Some (Some (Msg ''unreachable''))" by simp
  have a7: "length (filter isSubmit (snd ?bad)) \<le> 2"
    using U [THEN conjunct2, THEN conjunct1] n by simp
  from a1 a2 a3 a4 a5 a6 a7 show ?thesis by (intro conjI)
qed

section \<open>Properties of the blockchain identifier\<close>

lemma newArgs_no_chain: "q \<in> set (snd (newArgs P E vm key)) \<Longrightarrow> chainIdOf q = None"
  by (auto simp: newArgs_def Let_def split: sum.splits option.splits if_splits)

lemma isSubnetInList_no_chain: "q \<in> set (snd (isSubnetInList E c sid)) \<Longrightarrow> chainIdOf q = None"
  by (auto simp: isSubnetInList_def Let_def)

lemma createSubnetWorker_no_chain:
  "q \<in> set (fst (createSubnetWorker E a tx i k s)) \<Longrightarrow> chainIdOf q = None"
  by (auto simp: createSubnetWorker_def Let_def split: sum.splits if_splits)

lemma addValidatorWorker_no_chain:
  "q \<in> set (fst (addValidatorWorker E a tx i k s)) \<Longrightarrow> chainIdOf q = None"
  by (auto simp: addValidatorWorker_def Let_def split: sum.splits if_splits)

lemma groupWait_entries:
  assumes "q \<in> set (snd (groupWait iv body n sh sched))"
  shows "(\<exists>s. q = Call_TimeAfter (iv s)) \<or> (\<exists>i k s. i < n \<and> q \<in> set (fst (body i k s)))
     \<or> (\<exists>r. q = Call_Wait r)"
proof -
  from assms have "q \<in> set (trace (final iv body n sh sched)) \<or> (\<exists>r. q = Call_Wait r)"
    by (auto simp: groupWait_def Let_def split: option.splits)
  then show ?thesis using final_trace_cases [of q iv body n sh sched] by blast
qed

lemma groupWait_no_chain:
  assumes "q \<in> set (snd (groupWait iv body n sh sched))"
    and "\<And>i k s x. x \<in> set (fst (body i k s)) \<Longrightarrow> chainIdOf x = None"
  shows "chainIdOf q = None"
  using groupWait_entries [OF assms(1)] assms(2) by auto

lemma createSubnet_no_chain:
  "q \<in> set (snd (createSubnet P E a sched)) \<Longrightarrow> chainIdOf q = None"
proof -
  assume q: "q \<in> set (snd (createSubnet P E a sched))"
  let ?r = "CreateSubnet E (txPChainClient a) (userPass a) [fundedAddress a] (fundedAddress a)
               [fundedAddress a] (defaultKeyThreshold P)"
  show ?thesis
  proof (cases ?r)
    case (Inl e)
    with q show ?thesis by (simp add: createSubnet_def Let_def)
  next
    case (Inr tx)
    with q have "(\<exists>c up ks ad cs th r. q = Call_CreateSubnet c up ks ad cs th r)
        \<or> q \<in> set (snd (groupWait (\<lambda>u. apiRetryFreq P) (createSubnetWorker E a tx)
                 (length (allNodes a)) () sched))"
      by (auto simp: createSubnet_def Let_def split: prod.splits)
    then show ?thesis
      using groupWait_no_chain [of q "\<lambda>u. apiRetryFreq P" "createSubnetWorker E a tx"
          "length (allNodes a)" "()" sched] createSubnetWorker_no_chain
      by auto
  qed
qed

lemma validatorWait_no_chain:
  "q \<in> set (snd (validatorWait P E a tx s)) \<Longrightarrow> chainIdOf q = None"
  unfolding validatorWait_def
  using groupWait_no_chain [of q "\<lambda>u. apiRetryFreq P" "addValidatorWorker E a tx"
      "length (allNodes a)" "()" s] addValidatorWorker_no_chain
  by blast

lemma submitCall_no_chain [simp]: "chainIdOf (submitCall P E a sid nd j) = None"
  by (simp add: submitCall_def)

lemma addAllLoop_no_chain:
  "q \<in> set (snd (addAllLoop P E a sid rest j scheds)) \<Longrightarrow> chainIdOf q = None"
proof (induction rest arbitrary: j scheds)
  case Nil
  then show ?case by (simp add: addAllLoop_Nil)
next
  case (Cons nd rest)
  let ?s = "case scheds of [] \<Rightarrow> [] | s # ss \<Rightarrow> s"
  show ?case
  proof (cases "submitResult P E a sid nd j")
    case (Inl e)
    with Cons.prems show ?thesis by (simp add: addAllLoop_submit_error [OF Inl])
  next
    case (Inr tx)
    let ?w = "validatorWait P E a tx ?s"
    show ?thesis
    proof (cases "fst ?w")
      case None
      with Cons.prems show ?thesis
        using validatorWait_no_chain [of q P E a tx ?s]
        by (auto simp: addAllLoop_blocked [OF Inr None])
    next
      case (Some r)
      show ?thesis
      proof (cases r)
        case (Some e)
        with \<open>fst ?w = Some r\<close> have w: "fst ?w = Some (Some e)" by simp
        with Cons.prems show ?thesis
          using validatorWait_no_chain [of q P E a tx ?s]
          by (auto simp: addAllLoop_wait_error [OF Inr w])
      next
        case None
        with \<open>fst ?w = Some r\<close> have w: "fst ?w = Some None" by simp
        with Cons.prems show ?thesis
          using validatorWait_no_chain [of q P E a tx ?s] Cons.IH [of "Suc j" "tl scheds"]
          by (auto simp: addAllLoop_next [OF Inr w])
      qed
    qed
  qed
qed

lemma addAllAsValidators_no_chain:
  "q \<in> set (snd (addAllAsValidators P E a sid scheds)) \<Longrightarrow> chainIdOf q = None"
  unfolding addAllAsValidators_def by (rule addAllLoop_no_chain)

lemma createBlockchain_no_chain:
  "q \<in> set (snd (createBlockchain P E a vm sels)) \<Longrightarrow> chainIdOf q = None"
proof -
  assume q: "q \<in> set (snd (createBlockchain P E a vm sels))"
  show ?thesis
  proof (cases "ReadFile E (Genesis vm)")
    case (Inl e)
    with q show ?thesis by (simp add: createBlockchain_read_error)
  next
    case (Inr genesis)
    show ?thesis
    proof (cases "createChainTx E a vm genesis")
      case (Inl e)
      with q Inr show ?thesis by (auto simp: createBlockchain_submit_error createChainCall_def)
    next
      case txr: (Inr txID)
      with q Inr have "q = Call_ReadFile (Genesis vm) (Inr genesis) \<or> q = createChainCall E a vm genesis
          \<or> q \<in> set (snd (awaitBlockchainTx P E a txID 0 sels))"
        by (auto simp: createBlockchain_submitted)
      then show ?thesis
        using awaitBlockchainTx_calls [of q P E a txID 0 sels]
        by (auto simp: createChainCall_def)
    qed
  qed
qed

lemma ensureValidatingWorker_chain:
  "q \<in> set (fst (ensureValidatingWorker P E nodes bid i k s)) \<Longrightarrow>
     chainIdOf q = None \<or> chainIdOf q = Some (IDString E bid)"
  by (auto simp: ensureValidatingWorker_def Let_def split: sum.splits if_splits)

lemma ensureBootstrappedWorker_chain:
  "q \<in> set (fst (ensureBootstrappedWorker E nodes bid i k s)) \<Longrightarrow>
     chainIdOf q = None \<or> chainIdOf q = Some (IDString E bid)"
  by (auto simp: ensureBootstrappedWorker_def Let_def split: sum.splits if_splits)

lemma endpointLine_chain [simp]: "chainIdOf (endpointLine E bid nd) = Some (IDString E bid)"
  by (simp add: endpointLine_def)

lemma ensureValidating_chain:
  assumes "q \<in> set (snd (ensureValidating P E nodes bid sched))"
  shows "chainIdOf q = None \<or> chainIdOf q = Some (IDString E bid)"
proof -
  from assms have "(\<exists>s. q = Call_TimeAfter s)
      \<or> (\<exists>i k s. i < length nodes \<and> q \<in> set (fst (ensureValidatingWorker P E nodes bid i k s)))
      \<or> (\<exists>r. q = Call_Wait r)"
    unfolding ensureValidating_def
    using groupWait_entries [where q = q and iv = "\<lambda>t::duration. t"
        and body = "ensureValidatingWorker P E nodes bid" and n = "length nodes"
        and sh = "longTimeout P" and sched = sched]
    by simp
  then show ?thesis by (auto dest: ensureValidatingWorker_chain)
qed

lemma ensureBootstrapped_chain:
  assumes "q \<in> set (snd (ensureBootstrapped P E nodes bid sched))"
  shows "chainIdOf q = None \<or> chainIdOf q = Some (IDString E bid)"
proof -
  from assms have "(\<exists>s::unit. q = Call_TimeAfter (apiRetryFreq P))
      \<or> (\<exists>i k s. i < length nodes \<and> q \<in> set (fst (ensureBootstrappedWorker E nodes bid i k s)))
      \<or> (\<exists>r. q = Call_Wait r)"
    unfolding ensureBootstrapped_def
    using groupWait_entries [where q = q and iv = "\<lambda>u::unit. apiRetryFreq P"
        and body = "ensureBootstrappedWorker E nodes bid" and n = "length nodes"
        and sh = "()" and sched = sched]
    by simp
  then show ?thesis by (auto dest: ensureBootstrappedWorker_chain)
qed

lemma finalizeBlockchain_trace:
  "q \<in> set (snd (finalizeBlockchain P E nodes bid sv sb)) \<Longrightarrow>
     q \<in> set (snd (ensureValidating P E nodes bid sv))
     \<or> q \<in> set (snd (ensureBootstrapped P E nodes bid sb))
     \<or> q = Log_Info ''Custom VM endpoints now accessible at:'' []
     \<or> q \<in> endpointLine E bid ` set nodes"
  by (auto simp: finalizeBlockchain_def split: prod.splits option.splits)

lemma finalizeBlockchain_chain:
  assumes "q \<in> set (snd (finalizeBlockchain P E nodes bid sv sb))"
  shows "chainIdOf q = None \<or> chainIdOf q = Some (IDString E bid)"
  using finalizeBlockchain_trace [OF assms] ensureValidating_chain [of q P E nodes bid sv]
    ensureBootstrapped_chain [of q P E nodes bid sb]
  by auto

lemma finalizeBlockchain_report:
  "fst (finalizeBlockchain P E nodes bid sv sb) = Some None \<Longrightarrow>
     \<exists>t. snd (finalizeBlockchain P E nodes bid sv sb) = t @ map (endpointLine E bid) nodes"
  by (auto simp: finalizeBlockchain_def split: prod.splits option.splits)

lemma createBlockchain_returns_tx:
  assumes "fst (createBlockchain P E a vm sels) = Some (Inr bid)"
  shows "\<exists>genesis. ReadFile E (Genesis vm) = Inr genesis \<and> createChainTx E a vm genesis = Inr bid
     \<and> createChainCall E a vm genesis \<in> set (snd (createBlockchain P E a vm sels))"
proof (cases "ReadFile E (Genesis vm)")
  case (Inl e)
  with assms show ?thesis by (simp add: createBlockchain_read_error)
next
  case (Inr genesis)
  show ?thesis
  proof (cases "createChainTx E a vm genesis")
    case (Inl e)
    with assms Inr show ?thesis by (simp add: createBlockchain_submit_error)
  next
    case txr: (Inr txID)
    with assms Inr have "fst (awaitBlockchainTx P E a txID 0 sels) = Some (Inr bid)"
      by (simp add: createBlockchain_submitted)
    from awaitBlockchainTx_result [OF this] have "bid = txID" by auto
    with Inr txr show ?thesis by (simp add: createBlockchain_submitted)
  qed
qed

lemma SetupSubnet_trace:
  "q \<in> set (snd (SetupSubnet P E vm key S)) \<Longrightarrow>
     q = Log_Info ''creating subnet'' []
     \<or> q \<in> set (snd (newArgs P E vm key))
     \<or> (\<exists>a. fst (newArgs P E vm key) = Returns (Inr a)
          \<and> (q \<in> set (snd (createSubnet P E a (subnetSched S)))
              \<or> q = Log_Info ''all nodes accepted subnet tx creation'' []
              \<or> q \<in> set (snd (isSubnetInList E (txPChainClient a) (rSubnetID a)))
              \<or> q \<in> set (snd (addAllAsValidators P E a (SubnetID vm) (validatorScheds S)))
              \<or> q \<in> set (snd (createBlockchain P E a vm (chainSels S)))
              \<or> (\<exists>bid. fst (createBlockchain P E a vm (chainSels S)) = Some (Inr bid)
                    \<and> q \<in> set (snd (finalizeBlockchain P E (allNodes a) bid (validatingSched S)
                                      (bootstrapSched S))))))"
  unfolding SetupSubnet_def Let_def
  by (auto split: prod.splits completion.splits sum.splits option.splits)

text \<open>
  Claim C10. The identifier \<^verbatim>\<open>createBlockchain\<close> returns on success is the transaction that its
  \<^verbatim>\<open>CreateBlockchain\<close> call returned. \<^verbatim>\<open>finalizeBlockchain\<close> uses the string of the identifier
  it is given in every status query, every bootstrap query and every endpoint line, and on
  success its trace ends with one endpoint line per node. In a run of \<^verbatim>\<open>SetupSubnet\<close>,
  every such query and line carries the string of the transaction returned by the
  \<^verbatim>\<open>CreateBlockchain\<close> call of that run.
\<close>

theorem blockchainID_is_create_tx:
  "(\<forall>bid. fst (createBlockchain P E a vm sels) = Some (Inr bid) \<longrightarrow>
      (\<exists>genesis. ReadFile E (Genesis vm) = Inr genesis \<and> createChainTx E a vm genesis = Inr bid
         \<and> createChainCall E a vm genesis \<in> set (snd (createBlockchain P E a vm sels))))
   \<and> (\<forall>q \<in> set (snd (finalizeBlockchain P E nodes bid sv sb)). \<forall>s. chainIdOf q = Some s \<longrightarrow>
        s = IDString E bid)
   \<and> (fst (finalizeBlockchain P E nodes bid sv sb) = Some None \<longrightarrow>
        (\<exists>t. snd (finalizeBlockchain P E nodes bid sv sb) = t @ map (endpointLine E bid) nodes))
   \<and> (\<forall>q \<in> set (snd (SetupSubnet P E vm key S)). \<forall>s. chainIdOf q = Some s \<longrightarrow>
        (\<exists>a' genesis tx. fst (newArgs P E vm key) = Returns (Inr a')
           \<and> ReadFile E (Genesis vm) = Inr genesis \<and> createChainTx E a' vm genesis = Inr tx
           \<and> fst (createBlockchain P E a' vm (chainSels S)) = Some (Inr tx)
           \<and> s = IDString E tx))"
proof (intro conjI)
  show "\<forall>bid. fst (createBlockchain P E a vm sels) = Some (Inr bid) \<longrightarrow>
      (\<exists>genesis. ReadFile E (Genesis vm) = Inr genesis \<and> createChainTx E a vm genesis = Inr bid
         \<and> createChainCall E a vm genesis \<in> set (snd (createBlockchain P E a vm sels)))"
    by (intro allI impI) (rule createBlockchain_returns_tx)
next
  show "\<forall>q \<in> set (snd (finalizeBlockchain P E nodes bid sv sb)). \<forall>s. chainIdOf q = Some s \<longrightarrow>
        s = IDString E bid"
    using finalizeBlockchain_chain [of _ P E nodes bid sv sb] by fastforce
next
  show "fst (finalizeBlockchain P E nodes bid sv sb) = Some None \<longrightarrow>
        (\<exists>t. snd (finalizeBlockchain P E nodes bid sv sb) = t @ map (endpointLine E bid) nodes)"
    by (intro impI) (rule finalizeBlockchain_report)
next
  show "\<forall>q \<in> set (snd (SetupSubnet P E vm key S)). \<forall>s. chainIdOf q = Some s \<longrightarrow>
        (\<exists>a' genesis tx. fst (newArgs P E vm key) = Returns (Inr a')
           \<and> ReadFile E (Genesis vm) = Inr genesis \<and> createChainTx E a' vm genesis = Inr tx
           \<and> fst (createBlockchain P E a' vm (chainSels S)) = Some (Inr tx)
           \<and> s = IDString E tx)"
  proof (intro ballI allI impI)
    fix q s
    assume q: "q \<in> set (snd (SetupSubnet P E vm key S))" and c: "chainIdOf q = Some s"
    have n0: "chainIdOf (Log_Info ''creating subnet'' []) = None" by simp
    have n1: "chainIdOf (Log_Info ''all nodes accepted subnet tx creation'' []) = None" by simp
    from SetupSubnet_trace [OF q] c n0 n1 newArgs_no_chain [of q P E vm key]
    obtain a' where a: "fst (newArgs P E vm key) = Returns (Inr a')"
      and d: "q \<in> set (snd (createSubnet P E a' (subnetSched S)))
              \<or> q \<in> set (snd (isSubnetInList E (txPChainClient a') (rSubnetID a')))
              \<or> q \<in> set (snd (addAllAsValidators P E a' (SubnetID vm) (validatorScheds S)))
              \<or> q \<in> set (snd (createBlockchain P E a' vm (chainSels S)))
              \<or> (\<exists>bid. fst (createBlockchain P E a' vm (chainSels S)) = Some (Inr bid)
                    \<and> q \<in> set (snd (finalizeBlockchain P E (allNodes a') bid (validatingSched S)
                                      (bootstrapSched S))))"
      by (metis option.distinct(1))
    from d c createSubnet_no_chain [of q P E a' "subnetSched S"]
      isSubnetInList_no_chain [of q E "txPChainClient a'" "rSubnetID a'"]
      addAllAsValidators_no_chain [of q P E a' "SubnetID vm" "validatorScheds S"]
      createBlockchain_no_chain [of q P E a' vm "chainSels S"]
    obtain bid where b: "fst (createBlockchain P E a' vm (chainSels S)) = Some (Inr bid)"
      and f: "q \<in> set (snd (finalizeBlockchain P E (allNodes a') bid (validatingSched S)
                                      (bootstrapSched S)))"
      by (metis option.distinct(1))
    from finalizeBlockchain_chain [OF f] c have s: "s = IDString E bid" by simp
    from createBlockchain_returns_tx [OF b] obtain genesis where
      "ReadFile E (Genesis vm) = Inr genesis" "createChainTx E a' vm genesis = Inr bid" by blast
    with a b s show "\<exists>a' genesis tx. fst (newArgs P E vm key) = Returns (Inr a')
           \<and> ReadFile E (Genesis vm) = Inr genesis \<and> createChainTx E a' vm genesis = Inr tx
           \<and> fst (createBlockchain P E a' vm (chainSels S)) = Some (Inr tx)
           \<and> s = IDString E tx"
      by blast
  qed
qed

lemmas workflow_eval = SetupSubnet_def newArgs_def createSubnet_def isSubnetInList_def
  createBlockchain_def awaitBlockchainTx.simps finalizeBlockchain_def ensureValidating_def
  ensureBootstrapped_def ensureValidatingWorker_def ensureBootstrappedWorker_def
  createSubnetWorker_def endpointLine_def exampleSchedules_def exampleVM_def

text \<open>
  On the example fleet, where the whole workflow succeeds.
\<close>

theorem blockchainID_is_create_tx_witness:
  "fst (createBlockchain exampleParams exampleEnv exampleArgs exampleVM [SelTimer]) = Some (Inr (MkID 3))
   \<and> createChainTx exampleEnv exampleArgs exampleVM [] = Inr (MkID 3)
   \<and> Call_GetBlockchainStatus (Client 2) ''chain3'' (Inr Validating)
        \<in> set (snd (finalizeBlockchain exampleParams exampleEnv exampleNodes (MkID 3)
                  [Enter 0, Enter 1, Fire 1, Fire 0] [Enter 0, Fire 0, Enter 1, Fire 1]))
   \<and> IDString exampleEnv (MkID 3) = ''chain3''
   \<and> fst (finalizeBlockchain exampleParams exampleEnv exampleNodes (MkID 3)
            [Enter 0, Enter 1, Fire 1, Fire 0] [Enter 0, Fire 0, Enter 1, Fire 1]) = Some None
   \<and> fst (SetupSubnet exampleParams exampleEnv exampleVM ''key'' exampleSchedules) = Some (Returns None)
   \<and> Call_IsBootstrapped (Client 1) ''chain3'' (True, None)
        \<in> set (snd (SetupSubnet exampleParams exampleEnv exampleVM ''key'' exampleSchedules))
   \<and> (\<exists>a' genesis tx.
         fst (newArgs exampleParams exampleEnv exampleVM ''key'') = Returns (Inr a')
         \<and> ReadFile exampleEnv (Genesis exampleVM) = Inr genesis
         \<and> createChainTx exampleEnv a' exampleVM genesis = Inr tx
         \<and> fst (createBlockchain exampleParams exampleEnv a' exampleVM (chainSels exampleSchedules))
             = Some (Inr tx)
         \<and> ''chain3'' = IDString exampleEnv tx)"
proof -
  let ?P = exampleParams
  let ?V = "[Enter 0, Enter 1, Fire 1, Fire 0]"
  let ?B = "[Enter 0, Fire 0, Enter 1, Fire 1]"
  note T = blockchainID_is_create_tx [where P = ?P and E = exampleEnv and a = exampleArgs
      and vm = exampleVM and sels = "[SelTimer]" and nodes = exampleNodes and bid = "MkID 3"
      and sv = ?V and sb = ?B and key = "''key''" and S = exampleSchedules]
  have a1: "fst (createBlockchain ?P exampleEnv exampleArgs exampleVM [SelTimer]) = Some (Inr (MkID 3))"
    by (simp add: chain_eval example_defs)
  from T [THEN conjunct1, rule_format, OF a1]
  have "\<exists>genesis. ReadFile exampleEnv (Genesis exampleVM) = Inr genesis
      \<and> createChainTx exampleEnv exampleArgs exampleVM genesis = Inr (MkID 3)
      \<and> createChainCall exampleEnv exampleArgs exampleVM genesis
          \<in> set (snd (createBlockchain ?P exampleEnv exampleArgs exampleVM [SelTimer]))" .
  then have a2: "createChainTx exampleEnv exampleArgs exampleVM [] = Inr (MkID 3)"
    by (auto simp: exampleEnv_def)
  have a3: "Call_GetBlockchainStatus (Client 2) ''chain3'' (Inr Validating)
        \<in> set (snd (finalizeBlockchain ?P exampleEnv exampleNodes (MkID 3) ?V ?B))"
    by (simp add: workflow_eval finalization_eval example_defs)
  have "chainIdOf (Call_GetBlockchainStatus (Client 2) ''chain3'' (Inr Validating)) = Some ''chain3''"
    by simp
  from T [THEN conjunct2, THEN conjunct1, rule_format, OF a3 this]
  have a4: "IDString exampleEnv (MkID 3) = ''chain3''" by simp
  have a5: "fst (finalizeBlockchain ?P exampleEnv exampleNodes (MkID 3) ?V ?B) = Some None"
    by (simp add: workflow_eval finalization_eval example_defs)
  from T [THEN conjunct2, THEN conjunct2, THEN conjunct1, rule_format, OF a5]
  have "\<exists>t. snd (finalizeBlockchain ?P exampleEnv exampleNodes (MkID 3) ?V ?B)
      = t @ map (endpointLine exampleEnv (MkID 3)) exampleNodes" .
  have a6: "fst (SetupSubnet ?P exampleEnv exampleVM ''key'' exampleSchedules) = Some (Returns None)"
    by (simp add: workflow_eval finalization_eval loop_eval example_defs)
  have a7: "Call_IsBootstrapped (Client 1) ''chain3'' (True, None)
        \<in> set (snd (SetupSubnet ?P exampleEnv exampleVM ''key'' exampleSchedules))"
    by (simp add: workflow_eval finalization_eval loop_eval example_defs)
  have "chainIdOf (Call_IsBootstrapped (Client 1) ''chain3'' (True, None)) = Some ''chain3''"
    by simp
  note a8 = T [THEN conjunct2, THEN conjunct2, THEN conjunct2, rule_format, OF a7 this]
  from a1 a2 a3 a4 a5 a6 a7 a8 show ?thesis by (intro conjI)
qed

section \<open>Properties of \<^verbatim>\<open>isSubnetInList\<close>\<close>

text \<open>
  Claim C1. The check after the fleet-wide wait is meant to fail when the subnet is absent
  from the issuing node's subnet list. \<^verbatim>\<open>isSubnetInList\<close> drops the list that
  \<^verbatim>\<open>GetSubnets\<close> returns and looks at the error only: on a node that answers with the empty
  list and no error it makes the one query and returns nil, and the workflow goes on to
  its successful end.
\<close>

theorem isSubnetInList_absent_subnet:
  "isSubnetInList (exampleEnv\<lparr>GetSubnets := \<lambda>c is. Inr []\<rparr>) (Client 1) (MkID 7)
     = (None, [Call_GetSubnets (Client 1) [MkID 7] (Inr [])])
   \<and> fst (SetupSubnet exampleParams (exampleEnv\<lparr>GetSubnets := \<lambda>c is. Inr []\<rparr>) exampleVM ''key''
          exampleSchedules) = Some (Returns None)
   \<and> Call_GetSubnets (Client 1) [MkID 7] (Inr [])
        \<in> set (snd (SetupSubnet exampleParams (exampleEnv\<lparr>GetSubnets := \<lambda>c is. Inr []\<rparr>) exampleVM
                  ''key'' exampleSchedules))"
proof (intro conjI)
  show "isSubnetInList (exampleEnv\<lparr>GetSubnets := \<lambda>c is. Inr []\<rparr>) (Client 1) (MkID 7)
     = (None, [Call_GetSubnets (Client 1) [MkID 7] (Inr [])])"
    by (simp add: isSubnetInList_def)
  show "fst (SetupSubnet exampleParams (exampleEnv\<lparr>GetSubnets := \<lambda>c is. Inr []\<rparr>) exampleVM ''key''
          exampleSchedules) = Some (Returns None)"
    by (simp add: workflow_eval finalization_eval loop_eval example_defs)
  show "Call_GetSubnets (Client 1) [MkID 7] (Inr [])
        \<in> set (snd (SetupSubnet exampleParams (exampleEnv\<lparr>GetSubnets := \<lambda>c is. Inr []\<rparr>) exampleVM
                  ''key'' exampleSchedules))"
    by (simp add: workflow_eval finalization_eval loop_eval example_defs)
qed

end
